theory Spec2Isabelle
  imports Complex_Main
begin

section \<open>The wavetable processor of src/audio/processor.ts\<close>

text \<open>
  The embedding follows the first (multi-channel) \<open>WavetableProcessor\<close> class of
  \<open>src/audio/processor.ts\<close>. JavaScript numbers are modelled as mathematical reals:
  arithmetic on them is exact, and only a store into a \<open>Float32Array\<close> rounds, to the
  nearest single-precision value (\<open>to_float32\<close>). Infinities do not exist among the
  reals. Note numbers and channel indices, which the callers pass as integers, are
  \<open>int\<close>. Objects mutated in place become records that are passed and returned; the
  array of voices is a list updated by index, since \<open>Array.prototype.find\<close> hands back
  a reference to the element it found. A thrown \<open>TypeError\<close> or \<open>RangeError\<close> is
  the left summand of a result. A NaN that arises from reading a typed array out of
  range is \<open>None\<close> in the type of output samples.
\<close>

subsection \<open>Data model\<close>

datatype env_state = IDLE | ATTACK | DECAY | SUSTAIN | RELEASE

text \<open>Interface \<open>ADSR\<close>; its fields \<open>a\<close>, \<open>d\<close>, \<open>s\<close>, \<open>r\<close> carry a prefix here.\<close>

record ADSR =
  adsr_a :: real
  adsr_d :: real
  adsr_s :: real
  adsr_r :: real

record Voice =
  active :: bool
  channel :: int
  "note" :: int
  phase :: real
  phaseStep :: real
  envState :: env_state
  envTime :: real
  envLevel :: real
  releaseStartLevel :: real
  velocity :: real

record ChannelState =
  wavetable :: "real list"
  adsr :: ADSR

record WavetableProcessor =
  channels :: "ChannelState list"
  voices :: "Voice list"
  sampleRateVal :: real

datatype error = TypeError | RangeError

definition WAVETABLE_SIZE :: nat where
  "WAVETABLE_SIZE = 32"

subsection \<open>JavaScript primitives used by the class\<close>

text \<open>\<open>xs[i]\<close>: \<open>undefined\<close> (here \<open>None\<close>) outside the array.\<close>

definition array_get :: "'a list \<Rightarrow> int \<Rightarrow> 'a option" where
  "array_get xs i = (if 0 \<le> i \<and> i < int (length xs) then Some (xs ! nat i) else None)"

text \<open>\<open>Array.prototype.find\<close>, returning the position of the element found.\<close>

fun find_index :: "('a \<Rightarrow> bool) \<Rightarrow> 'a list \<Rightarrow> nat option" where
  "find_index P [] = None"
| "find_index P (x # xs) = (if P x then Some 0 else map_option Suc (find_index P xs))"

text \<open>
  The value an element of a \<open>Float32Array\<close> holds after a number was stored in it: the
  nearest multiple of the unit in the last place of a 24-bit significand (exponent at
  least \<open>-126\<close>), ties to the even neighbour. Where JavaScript would store an infinity
  (from \<open>2 ^ 128 - 2 ^ 103\<close> on) the rounded real is kept instead.
\<close>

definition round_half_even :: "real \<Rightarrow> int" where
  "round_half_even y =
     (let f = \<lfloor>y\<rfloor>; d = y - of_int f
      in if d < 1/2 then f else if 1/2 < d then f + 1 else if even f then f else f + 1)"

definition to_float32 :: "real \<Rightarrow> real" where
  "to_float32 x =
     (if x = 0 then 0
      else
        (let e = max \<lfloor>log 2 \<bar>x\<bar>\<rfloor> (-126);
             ulp = 2 powr of_int (e - 23)
         in of_int (round_half_even (x / ulp)) * ulp))"

text \<open>\<open>a[i] = x\<close> on a \<open>Float32Array\<close>, for a number that may be NaN: NaN is stored as NaN.\<close>

definition typed_array_store :: "real option \<Rightarrow> real option" where
  "typed_array_store x = map_option to_float32 x"

text \<open>
  \<open>Float32Array.prototype.set(source)\<close> at offset 0: every element of the source is
  converted as by a store.
\<close>

definition typed_array_set :: "real list \<Rightarrow> real list \<Rightarrow> error + real list" where
  "typed_array_set target source =
     (if length source > length target then Inl RangeError
      else Inr (map to_float32 source @ drop (length source) target))"

text \<open>The remainder operator \<open>%\<close> on integers: the sign follows the dividend.\<close>

definition js_rem :: "int \<Rightarrow> int \<Rightarrow> int" where
  "js_rem x y = sgn x * (\<bar>x\<bar> mod \<bar>y\<bar>)"

text \<open>Arithmetic on numbers that may be NaN (\<open>None\<close>).\<close>

definition num_add :: "real option \<Rightarrow> real option \<Rightarrow> real option" where
  "num_add x y = (case x of None \<Rightarrow> None | Some u \<Rightarrow> (case y of None \<Rightarrow> None | Some w \<Rightarrow> Some (u + w)))"

definition num_mul :: "real option \<Rightarrow> real option \<Rightarrow> real option" where
  "num_mul x y = (case x of None \<Rightarrow> None | Some u \<Rightarrow> (case y of None \<Rightarrow> None | Some w \<Rightarrow> Some (u * w)))"

definition num_div :: "real option \<Rightarrow> real \<Rightarrow> real option" where
  "num_div x y = map_option (\<lambda>u. u / y) x"

subsection \<open>Constructor\<close>

definition default_wavetable :: "real list" where
  "default_wavetable =
     map (\<lambda>i. to_float32 (sin ((real i / real WAVETABLE_SIZE) * 2 * pi))) [0..<WAVETABLE_SIZE]"

definition default_channel :: ChannelState where
  "default_channel =
     \<lparr>wavetable = default_wavetable,
      adsr = \<lparr>adsr_a = 0.1, adsr_d = 0.1, adsr_s = 0.5, adsr_r = 0.2\<rparr>\<rparr>"

definition idle_voice :: Voice where
  "idle_voice =
     \<lparr>active = False, channel = 0, note = 0, phase = 0, phaseStep = 0, envState = IDLE,
      envTime = 0, envLevel = 0, releaseStartLevel = 0, velocity = 0\<rparr>"

definition constructor :: "real \<Rightarrow> WavetableProcessor" where
  "constructor sampleRate =
     \<lparr>channels = replicate 16 default_channel,
      voices = replicate 6 idle_voice,
      sampleRateVal = sampleRate\<rparr>"

subsection \<open>triggerAttack and triggerRelease\<close>

definition select_voice :: "Voice list \<Rightarrow> nat option" where
  "select_voice vs =
     (case find_index (\<lambda>v. envState v = IDLE) vs of
        Some i \<Rightarrow> Some i
      | None \<Rightarrow>
          (case find_index (\<lambda>v. envState v = RELEASE) vs of
             Some i \<Rightarrow> Some i
           | None \<Rightarrow> (if vs = [] then None else Some 0)))"

definition attack_voice :: "real \<Rightarrow> int \<Rightarrow> real \<Rightarrow> int \<Rightarrow> Voice \<Rightarrow> Voice" where
  "attack_voice sr n vel ch voice =
     (let freq = 440 * 2 powr (real_of_int (n - 69) / 12)
      in voice\<lparr>active := True, note := n, channel := ch,
               phaseStep := (freq / sr) * real WAVETABLE_SIZE, phase := 0,
               velocity := vel / 127, envState := ATTACK, envTime := 0, envLevel := 0\<rparr>)"

definition triggerAttack :: "int \<Rightarrow> real \<Rightarrow> int \<Rightarrow> WavetableProcessor \<Rightarrow> error + WavetableProcessor" where
  "triggerAttack n vel ch st =
     (case select_voice (voices st) of
        None \<Rightarrow> Inl TypeError
      | Some k \<Rightarrow>
          Inr (st\<lparr>voices := (voices st)[k := attack_voice (sampleRateVal st) n vel ch (voices st ! k)]\<rparr>))"

definition release_voice :: "int \<Rightarrow> int \<Rightarrow> Voice \<Rightarrow> Voice" where
  "release_voice n ch v =
     (if active v \<and> note v = n \<and> channel v = ch \<and> envState v \<noteq> RELEASE \<and> envState v \<noteq> IDLE
      then v\<lparr>envState := RELEASE, envTime := 0, releaseStartLevel := envLevel v\<rparr>
      else v)"

definition triggerRelease :: "int \<Rightarrow> int \<Rightarrow> WavetableProcessor \<Rightarrow> WavetableProcessor" where
  "triggerRelease n ch st = st\<lparr>voices := map (release_voice n ch) (voices st)\<rparr>"

subsection \<open>handleMessage\<close>

text \<open>
  The messages by their \<open>type\<close> tag, fields in the order of the payload; \<open>OTHER\<close> is
  any tag the handler does not know.
\<close>

datatype message =
    NOTE_ON int real int
  | NOTE_OFF int int
  | SET_CHANNEL_WAVETABLE int "real list"
  | SET_CHANNEL_ADSR int ADSR
  | STOP_ALL
  | OTHER

definition stop_voice :: "Voice \<Rightarrow> Voice" where
  "stop_voice v = v\<lparr>active := False, envState := IDLE, envLevel := 0\<rparr>"

fun handleMessage :: "message \<Rightarrow> WavetableProcessor \<Rightarrow> error + WavetableProcessor" where
  "handleMessage (NOTE_ON n vel c) st = triggerAttack n vel c st"
| "handleMessage (NOTE_OFF n c) st = Inr (triggerRelease n c st)"
| "handleMessage (SET_CHANNEL_WAVETABLE c samples) st =
     (case array_get (channels st) c of
        None \<Rightarrow> Inr st
      | Some ch \<Rightarrow>
          if length samples = WAVETABLE_SIZE then
            (case typed_array_set (wavetable ch) samples of
               Inl e \<Rightarrow> Inl e
             | Inr wt \<Rightarrow> Inr (st\<lparr>channels := (channels st)[nat c := ch\<lparr>wavetable := wt\<rparr>]\<rparr>))
          else Inr st)"
| "handleMessage (SET_CHANNEL_ADSR c ad) st =
     (case array_get (channels st) c of
        None \<Rightarrow> Inr st
      | Some ch \<Rightarrow> Inr (st\<lparr>channels := (channels st)[nat c := ch\<lparr>adsr := ad\<rparr>]\<rparr>))"
| "handleMessage STOP_ALL st = Inr (st\<lparr>voices := map stop_voice (voices st)\<rparr>)"
| "handleMessage OTHER st = Inr st"

subsection \<open>process\<close>

text \<open>The \<open>switch\<close> on \<open>voice.envState\<close>: one envelope step of one voice.\<close>

definition envelope_step :: "real \<Rightarrow> ADSR \<Rightarrow> Voice \<Rightarrow> Voice" where
  "envelope_step sr ad voice =
     (case envState voice of
        ATTACK \<Rightarrow>
          (let aSamples = adsr_a ad * sr in
           if aSamples \<le> 0 then voice\<lparr>envLevel := 1, envState := DECAY, envTime := 0\<rparr>
           else
             (let stepSize = 1 / aSamples;
                  v1 = voice\<lparr>envLevel := envLevel voice + stepSize\<rparr>
              in if envLevel v1 \<ge> 1 then v1\<lparr>envLevel := 1, envState := DECAY, envTime := 0\<rparr>
                 else v1))
      | DECAY \<Rightarrow>
          (let dSamples = adsr_d ad * sr in
           if dSamples \<le> 0 then voice\<lparr>envLevel := adsr_s ad, envState := SUSTAIN\<rparr>
           else
             (let stepSize = (1 - adsr_s ad) / dSamples;
                  v1 = voice\<lparr>envLevel := envLevel voice - stepSize\<rparr>
              in if envLevel v1 \<le> adsr_s ad then v1\<lparr>envLevel := adsr_s ad, envState := SUSTAIN\<rparr>
                 else v1))
      | SUSTAIN \<Rightarrow> voice\<lparr>envLevel := adsr_s ad\<rparr>
      | RELEASE \<Rightarrow>
          (let rSamples = adsr_r ad * sr in
           if rSamples \<le> 0 then voice\<lparr>envLevel := 0, active := False, envState := IDLE\<rparr>
           else
             (let stepSize = releaseStartLevel voice / rSamples;
                  v1 = voice\<lparr>envLevel := envLevel voice - stepSize\<rparr>
              in if envLevel v1 \<le> 0 then v1\<lparr>envLevel := 0, active := False, envState := IDLE\<rparr>
                 else v1))
      | IDLE \<Rightarrow> voice)"

text \<open>
  The wavetable lookup and the phase increment, both under the gain test; the running
  \<open>sampleSum\<close> is threaded through.
\<close>

definition oscillator_step :: "real list \<Rightarrow> Voice \<Rightarrow> real option \<Rightarrow> Voice \<times> real option" where
  "oscillator_step wt voice sampleSum =
     (let currentGain = envLevel voice * velocity voice in
      if currentGain > 0.0001 then
        (let index = phase voice;
             i = \<lfloor>index\<rfloor>;
             frac = index - of_int i;
             nextI = js_rem (i + 1) (int WAVETABLE_SIZE);
             val = num_add (num_mul (array_get wt i) (Some (1 - frac)))
                           (num_mul (array_get wt nextI) (Some frac));
             sampleSum' = num_add sampleSum (num_mul val (Some currentGain));
             v1 = voice\<lparr>phase := phase voice + phaseStep voice\<rparr>
         in (if phase v1 \<ge> real WAVETABLE_SIZE then v1\<lparr>phase := phase v1 - real WAVETABLE_SIZE\<rparr>
             else v1,
             sampleSum'))
      else (voice, sampleSum))"

text \<open>
  The body of \<open>for (const voice of this.voices)\<close>. Reading \<open>chState.adsr\<close> of an
  undefined \<open>chState\<close> throws.
\<close>

definition process_voice ::
  "ChannelState list \<Rightarrow> real \<Rightarrow> Voice \<Rightarrow> real option \<Rightarrow> error + (Voice \<times> real option)" where
  "process_voice chans sr voice sampleSum =
     (if \<not> active voice then Inr (voice, sampleSum)
      else
        (case array_get chans (channel voice) of
           None \<Rightarrow> Inl TypeError
         | Some chState \<Rightarrow>
             Inr (oscillator_step (wavetable chState) (envelope_step sr (adsr chState) voice) sampleSum)))"

fun process_voices ::
  "ChannelState list \<Rightarrow> real \<Rightarrow> Voice list \<Rightarrow> real option \<Rightarrow> error + (Voice list \<times> real option)" where
  "process_voices chans sr [] sampleSum = Inr ([], sampleSum)"
| "process_voices chans sr (v # vs) sampleSum =
     (case process_voice chans sr v sampleSum of
        Inl e \<Rightarrow> Inl e
      | Inr (v', acc) \<Rightarrow>
          (case process_voices chans sr vs acc of
             Inl e \<Rightarrow> Inl e
           | Inr (vs', acc') \<Rightarrow> Inr (v' # vs', acc')))"

text \<open>
  One iteration of the outer loop: one output sample, as \<open>channelData[i]\<close> (an element
  of a \<open>Float32Array\<close>) holds it.
\<close>

definition render_sample :: "WavetableProcessor \<Rightarrow> error + (WavetableProcessor \<times> real option)" where
  "render_sample st =
     (case process_voices (channels st) (sampleRateVal st) (voices st) (Some 0) of
        Inl e \<Rightarrow> Inl e
      | Inr (vs', sampleSum) \<Rightarrow>
          Inr (st\<lparr>voices := vs'\<rparr>, typed_array_store (num_div sampleSum 4)))"

fun render_block :: "nat \<Rightarrow> WavetableProcessor \<Rightarrow> error + (WavetableProcessor \<times> real option list)" where
  "render_block 0 st = Inr (st, [])"
| "render_block (Suc n) st =
     (case render_sample st of
        Inl e \<Rightarrow> Inl e
      | Inr (st', x) \<Rightarrow>
          (case render_block n st' of
             Inl e \<Rightarrow> Inl e
           | Inr (st'', xs) \<Rightarrow> Inr (st'', x # xs)))"

text \<open>
  \<open>process\<close> for an output of \<open>nch\<close> channels of \<open>bufferLength\<close> frames each: the mono
  block is copied to every channel. With no output channel \<open>channelData.length\<close> throws.
\<close>

definition process ::
  "nat \<Rightarrow> nat \<Rightarrow> WavetableProcessor \<Rightarrow> error + (WavetableProcessor \<times> real option list list)" where
  "process nch bufferLength st =
     (if nch = 0 then Inl TypeError
      else
        (case render_block bufferLength st of
           Inl e \<Rightarrow> Inl e
         | Inr (st', channelData) \<Rightarrow> Inr (st', replicate nch channelData)))"

subsection \<open>Runs of the engine\<close>

text \<open>
  The audio thread alternates between delivering a message to \<open>handleMessage\<close> and
  calling \<open>process\<close>; a run is a list of such events, and it stops at the first throw.
\<close>

datatype event = Deliver message | Process nat nat

fun step :: "event \<Rightarrow> WavetableProcessor \<Rightarrow> error + WavetableProcessor" where
  "step (Deliver m) st = handleMessage m st"
| "step (Process nch n) st = map_sum id fst (process nch n st)"

fun run :: "event list \<Rightarrow> WavetableProcessor \<Rightarrow> error + WavetableProcessor" where
  "run [] st = Inr st"
| "run (e # es) st = (case step e st of Inl err \<Rightarrow> Inl err | Inr st' \<Rightarrow> run es st')"

subsection \<open>Auxiliary notions for the statements\<close>

text \<open>A burst of note-on messages, delivered one after the other with no render between.\<close>

fun note_on_events :: "(int \<times> real \<times> int) list \<Rightarrow> event list" where
  "note_on_events [] = []"
| "note_on_events ((n, vel, c) # ns) = Deliver (NOTE_ON n vel c) # note_on_events ns"

definition idle_count :: "Voice list \<Rightarrow> nat" where
  "idle_count vs = length (filter (\<lambda>v. envState v = IDLE) vs)"

text \<open>The pool invariant: six slots, and a slot that is not \<open>IDLE\<close> is active.\<close>

definition slot_ok :: "Voice \<Rightarrow> bool" where
  "slot_ok v = (envState v = IDLE \<or> active v)"

definition pool_ok :: "WavetableProcessor \<Rightarrow> bool" where
  "pool_ok st = (length (voices st) = 6 \<and> list_all slot_ok (voices st))"

text \<open>
  The engine after a note 69 on channel 0 was started, rendered for one sample and
  released: voice 0 is in \<open>RELEASE\<close>, the other five are free.
\<close>

definition released_state :: WavetableProcessor where
  "released_state = (constructor 48000)\<lparr>voices :=
     [\<lparr>active = True, channel = 0, note = 69, phase = 22 / 75, phaseStep = 22 / 75,
       envState = RELEASE, envTime = 0, envLevel = 1 / 4800, releaseStartLevel = 1 / 4800,
       velocity = 1\<rparr>,
      idle_voice, idle_voice, idle_voice, idle_voice, idle_voice]\<rparr>"

text \<open>The level invariant of the engine: sustain ratios and envelope levels in range.\<close>

definition voice_ok :: "Voice \<Rightarrow> bool" where
  "voice_ok v = (0 \<le> envLevel v \<and> envLevel v \<le> 1 \<and> 0 \<le> releaseStartLevel v)"

definition chan_ok :: "ChannelState \<Rightarrow> bool" where
  "chan_ok c = (0 \<le> adsr_s (adsr c) \<and> adsr_s (adsr c) \<le> 1)"

definition levels_ok :: "WavetableProcessor \<Rightarrow> bool" where
  "levels_ok st = (list_all chan_ok (channels st) \<and> list_all voice_ok (voices st))"

text \<open>An event that does not set a sustain ratio outside \<open>[0,1]\<close>.\<close>

fun sustain_in_range :: "event \<Rightarrow> bool" where
  "sustain_in_range (Deliver (SET_CHANNEL_ADSR c ad)) = (0 \<le> adsr_s ad \<and> adsr_s ad \<le> 1)"
| "sustain_in_range e = True"

text \<open>
  A pool in the middle of a performance: two voices hold note 60 on channel 0, one decays
  on note 62, one is already releasing note 60, two are free.
\<close>

definition sounding_state :: WavetableProcessor where
  "sounding_state = (constructor 48000)\<lparr>voices :=
     [idle_voice\<lparr>active := True, note := 60, envState := SUSTAIN, envLevel := 1/2, velocity := 1,
                 phase := 5, phaseStep := 1/4\<rparr>,
      idle_voice\<lparr>active := True, note := 60, envState := ATTACK, envLevel := 1/4, velocity := 1/2,
                 phase := 7, phaseStep := 1/4\<rparr>,
      idle_voice\<lparr>active := True, note := 62, envState := DECAY, envLevel := 3/4, velocity := 1,
                 phase := 9, phaseStep := 1/3, envTime := 0, releaseStartLevel := 1/8\<rparr>,
      idle_voice\<lparr>active := True, note := 60, envState := RELEASE, envLevel := 1/8, velocity := 1,
                 releaseStartLevel := 1/5\<rparr>,
      idle_voice, idle_voice]\<rparr>"

text \<open>
  The single-precision values: the numbers below \<open>2 ^ 128\<close> in magnitude that a store
  into a \<open>Float32Array\<close> leaves as they are. The elements of a \<open>Float32Array\<close> payload
  are such values.
\<close>

definition is_float32 :: "real \<Rightarrow> bool" where
  "is_float32 x = (\<bar>x\<bar> < 2 ^ 128 \<and> to_float32 x = x)"

text \<open>An event that does not start a note whose frequency is above the sample rate.\<close>

fun note_in_band :: "real \<Rightarrow> event \<Rightarrow> bool" where
  "note_in_band sr (Deliver (NOTE_ON n vel c)) = (440 * 2 powr (real_of_int (n - 69) / 12) \<le> sr)"
| "note_in_band sr e = True"

text \<open>The phase invariant: phase inside the table, step at most one table length.\<close>

definition phase_ok :: "Voice \<Rightarrow> bool" where
  "phase_ok v = (0 \<le> phase v \<and> phase v < real WAVETABLE_SIZE \<and>
                 0 \<le> phaseStep v \<and> phaseStep v \<le> real WAVETABLE_SIZE)"

definition phases_ok :: "real \<Rightarrow> WavetableProcessor \<Rightarrow> bool" where
  "phases_ok sr st = (sampleRateVal st = sr \<and> list_all phase_ok (voices st))"

text \<open>A channel with a silent table, for evaluating single voice steps.\<close>

definition flat_channel :: ChannelState where
  "flat_channel =
     \<lparr>wavetable = replicate 32 0,
      adsr = \<lparr>adsr_a = 0.1, adsr_d = 0.1, adsr_s = 0.5, adsr_r = 0.2\<rparr>\<rparr>"

section \<open>Properties\<close>

subsection \<open>Shared lemmas\<close>

lemma to_float32_zero: "to_float32 0 = 0"
  by (simp add: to_float32_def)

lemma process_voices_inactive:
  "\<forall>v \<in> set vs. \<not> active v \<Longrightarrow> process_voices chans sr vs acc = Inr (vs, acc)"
  by (induction vs) (simp_all add: process_voice_def)

lemma envelope_step_phase: "phase (envelope_step sr ad v) = phase v"
  by (simp add: envelope_step_def Let_def split: env_state.splits)

lemma envelope_step_phaseStep: "phaseStep (envelope_step sr ad v) = phaseStep v"
  by (simp add: envelope_step_def Let_def split: env_state.splits)

lemma oscillator_step_gain:
  "envLevel (fst (oscillator_step wt w acc)) = envLevel w \<and>
   velocity (fst (oscillator_step wt w acc)) = velocity w"
  by (simp add: oscillator_step_def Let_def)

lemma oscillator_step_phase:
  "phase (fst (oscillator_step wt w acc)) =
     (if envLevel w * velocity w > 0.0001
      then (if phase w + phaseStep w \<ge> 32 then phase w + phaseStep w - 32
            else phase w + phaseStep w)
      else phase w)"
  by (simp add: oscillator_step_def Let_def WAVETABLE_SIZE_def)

lemma render_sample_inactive:
  "\<forall>v \<in> set (voices st). \<not> active v \<Longrightarrow> render_sample st = Inr (st, Some 0)"
  by (simp add: render_sample_def process_voices_inactive num_div_def typed_array_store_def
      to_float32_zero)

lemma oscillator_step_gated:
  "envLevel w * velocity w \<le> 0.0001 \<Longrightarrow> oscillator_step wt w acc = (w, acc)"
  by (simp add: oscillator_step_def Let_def)

lemma find_index_Some:
  "find_index P xs = Some k \<Longrightarrow> k < length xs \<and> P (xs ! k) \<and> (\<forall>j < k. \<not> P (xs ! j))"
proof (induction xs arbitrary: k)
  case Nil
  then show ?case by simp
next
  case (Cons x xs)
  show ?case
  proof (cases "P x")
    case True
    with Cons.prems show ?thesis by simp
  next
    case False
    with Cons.prems obtain k' where k': "find_index P xs = Some k'" "k = Suc k'"
      by auto
    from Cons.IH [OF k'(1)] False k'(2) show ?thesis
      by (auto simp: nth_Cons split: nat.splits)
  qed
qed

lemma find_index_None: "find_index P xs = None \<longleftrightarrow> (\<forall>i < length xs. \<not> P (xs ! i))"
  by (induction xs) (auto simp: nth_Cons split: nat.splits)

lemma filter_update_count:
  "k < length xs \<Longrightarrow> P (xs ! k) \<Longrightarrow> \<not> P y \<Longrightarrow>
     Suc (length (filter P (xs[k := y]))) = length (filter P xs)"
proof (induction xs arbitrary: k)
  case Nil
  then show ?case by simp
next
  case (Cons x xs)
  then show ?case by (cases k) auto
qed

lemma select_voice_spec:
  assumes "vs \<noteq> []"
  shows "\<exists>k < length vs. select_voice vs = Some k \<and>
     (if \<exists>i < length vs. envState (vs ! i) = IDLE
      then envState (vs ! k) = IDLE \<and> (\<forall>j < k. envState (vs ! j) \<noteq> IDLE)
      else if \<exists>i < length vs. envState (vs ! i) = RELEASE
      then envState (vs ! k) = RELEASE \<and> (\<forall>j < k. envState (vs ! j) \<noteq> RELEASE)
      else k = 0)"
proof (cases "find_index (\<lambda>v. envState v = IDLE) vs")
  case (Some k)
  from find_index_Some [OF Some] Some show ?thesis
    by (auto simp: select_voice_def)
next
  case None
  note noIdle = this
  then have ni: "\<not> (\<exists>i < length vs. envState (vs ! i) = IDLE)"
    by (simp add: find_index_None)
  show ?thesis
  proof (cases "find_index (\<lambda>v. envState v = RELEASE) vs")
    case (Some k)
    from find_index_Some [OF Some] Some noIdle ni show ?thesis
      by (auto simp: select_voice_def)
  next
    case None
    then have "\<not> (\<exists>i < length vs. envState (vs ! i) = RELEASE)"
      by (simp add: find_index_None)
    with None noIdle ni assms show ?thesis
      by (auto simp: select_voice_def)
  qed
qed

lemma idle_count_zero: "idle_count vs = 0 \<longleftrightarrow> (\<forall>v \<in> set vs. envState v \<noteq> IDLE)"
  by (auto simp: idle_count_def filter_empty_conv)

lemma attack_voice_fields:
  "envState (attack_voice sr n vel ch v) = ATTACK \<and> active (attack_voice sr n vel ch v)"
  by (simp add: attack_voice_def Let_def)

lemma triggerAttack_pool:
  assumes ne: "voices st \<noteq> []"
    and inv: "\<forall>v \<in> set (voices st). envState v \<noteq> IDLE \<longrightarrow> active v"
  shows "\<exists>st'. triggerAttack n vel ch st = Inr st' \<and>
           length (voices st') = length (voices st) \<and>
           (\<forall>v \<in> set (voices st'). envState v \<noteq> IDLE \<longrightarrow> active v) \<and>
           idle_count (voices st') = idle_count (voices st) - 1"
proof -
  let ?vs = "voices st"
  from select_voice_spec [OF ne] obtain k where k: "k < length ?vs" "select_voice ?vs = Some k"
    and sel: "if \<exists>i < length ?vs. envState (?vs ! i) = IDLE
      then envState (?vs ! k) = IDLE \<and> (\<forall>j < k. envState (?vs ! j) \<noteq> IDLE)
      else if \<exists>i < length ?vs. envState (?vs ! i) = RELEASE
      then envState (?vs ! k) = RELEASE \<and> (\<forall>j < k. envState (?vs ! j) \<noteq> RELEASE)
      else k = 0"
    by blast
  let ?y = "attack_voice (sampleRateVal st) n vel ch (?vs ! k)"
  let ?st' = "st\<lparr>voices := ?vs[k := ?y]\<rparr>"
  have res: "triggerAttack n vel ch st = Inr ?st'"
    using k by (simp add: triggerAttack_def)
  have inv': "\<forall>v \<in> set (voices ?st'). envState v \<noteq> IDLE \<longrightarrow> active v"
  proof
    fix v assume "v \<in> set (voices ?st')"
    then have "v = ?y \<or> v \<in> set ?vs"
      using set_update_subset_insert [of ?vs k ?y] by auto
    with inv attack_voice_fields show "envState v \<noteq> IDLE \<longrightarrow> active v" by auto
  qed
  have cnt: "idle_count (voices ?st') = idle_count ?vs - 1"
  proof (cases "\<exists>i < length ?vs. envState (?vs ! i) = IDLE")
    case True
    with sel have "envState (?vs ! k) = IDLE" by simp
    with k(1) filter_update_count [of k ?vs "\<lambda>v. envState v = IDLE" ?y] attack_voice_fields
    show ?thesis by (simp add: idle_count_def)
  next
    case False
    then have z: "idle_count ?vs = 0"
      by (auto simp: idle_count_zero in_set_conv_nth)
    have "\<forall>v \<in> set (?vs[k := ?y]). envState v \<noteq> IDLE"
    proof
      fix v assume "v \<in> set (?vs[k := ?y])"
      then have "v = ?y \<or> v \<in> set ?vs"
        using set_update_subset_insert [of ?vs k ?y] by auto
      with z attack_voice_fields show "envState v \<noteq> IDLE" by (auto simp: idle_count_zero)
    qed
    then have "idle_count (?vs[k := ?y]) = 0" by (simp only: idle_count_zero)
    with z show ?thesis by simp
  qed
  from res inv' cnt show ?thesis by simp
qed

lemma run_note_ons:
  assumes "voices st \<noteq> []"
    and "\<forall>v \<in> set (voices st). envState v \<noteq> IDLE \<longrightarrow> active v"
  shows "\<exists>st'. run (note_on_events ns) st = Inr st' \<and>
           length (voices st') = length (voices st) \<and>
           (\<forall>v \<in> set (voices st'). envState v \<noteq> IDLE \<longrightarrow> active v) \<and>
           idle_count (voices st') = idle_count (voices st) - length ns"
  using assms
proof (induction ns arbitrary: st)
  case Nil
  then show ?case by simp
next
  case (Cons x ns)
  obtain n vel c where x: "x = (n, vel, c)" by (cases x)
  from triggerAttack_pool [OF Cons.prems, of n vel c] obtain st1 where
    st1: "triggerAttack n vel c st = Inr st1" "length (voices st1) = length (voices st)"
      "\<forall>v \<in> set (voices st1). envState v \<noteq> IDLE \<longrightarrow> active v"
      "idle_count (voices st1) = idle_count (voices st) - 1"
    by blast
  from st1(2) Cons.prems(1) have ne1: "voices st1 \<noteq> []" by auto
  from Cons.IH [OF ne1 st1(3)] obtain st' where
    "run (note_on_events ns) st1 = Inr st'" "length (voices st') = length (voices st1)"
      "\<forall>v \<in> set (voices st'). envState v \<noteq> IDLE \<longrightarrow> active v"
      "idle_count (voices st') = idle_count (voices st1) - length ns"
    by blast
  with st1 x show ?case by simp
qed

subsection \<open>Voice allocation\<close>

lemma envelope_step_slot: "slot_ok v \<Longrightarrow> slot_ok (envelope_step sr ad v)"
  by (cases "envState v") (simp_all add: envelope_step_def slot_ok_def Let_def)

lemma oscillator_step_slot: "slot_ok w \<Longrightarrow> slot_ok (fst (oscillator_step wt w acc))"
  by (simp add: oscillator_step_def slot_ok_def Let_def)

lemma process_voice_slot:
  assumes "slot_ok v" and "process_voice chans sr v acc = Inr (v', acc')"
  shows "slot_ok v'"
proof (cases "active v")
  case False
  with assms show ?thesis by (simp add: process_voice_def)
next
  case True
  with assms(2) obtain chState where ch: "array_get chans (channel v) = Some chState"
    by (cases "array_get chans (channel v)") (simp_all add: process_voice_def)
  from assms(1) have "slot_ok (envelope_step sr (adsr chState) v)"
    by (rule envelope_step_slot)
  then have "slot_ok (fst (oscillator_step (wavetable chState) (envelope_step sr (adsr chState) v) acc))"
    by (rule oscillator_step_slot)
  with True ch assms(2) show ?thesis by (simp add: process_voice_def)
qed

lemma process_voices_slot:
  "list_all slot_ok vs \<Longrightarrow> process_voices chans sr vs acc = Inr (vs', acc') \<Longrightarrow>
     length vs' = length vs \<and> list_all slot_ok vs'"
proof (induction vs arbitrary: acc vs' acc')
  case Nil
  then show ?case by simp
next
  case (Cons v vs)
  from Cons.prems(2) obtain v1 a1 where v1: "process_voice chans sr v acc = Inr (v1, a1)"
    by (cases "process_voice chans sr v acc") auto
  with Cons.prems(2) obtain vs1 a2 where vs1: "process_voices chans sr vs a1 = Inr (vs1, a2)"
    by (cases "process_voices chans sr vs a1") auto
  with v1 Cons.prems(2) have eq: "vs' = v1 # vs1" by simp
  from Cons.prems(1) v1 have "slot_ok v1" by (auto intro: process_voice_slot)
  moreover from Cons.IH [OF _ vs1] Cons.prems(1)
  have "length vs1 = length vs \<and> list_all slot_ok vs1" by simp
  ultimately show ?case using eq by simp
qed

lemma render_sample_pool:
  "pool_ok st \<Longrightarrow> render_sample st = Inr (st', x) \<Longrightarrow> pool_ok st'"
  by (auto simp: render_sample_def pool_ok_def split: sum.splits dest: process_voices_slot)

lemma render_block_pool:
  "pool_ok st \<Longrightarrow> render_block n st = Inr (st', xs) \<Longrightarrow> pool_ok st'"
proof (induction n arbitrary: st st' xs)
  case 0
  then show ?case by simp
next
  case (Suc n)
  from Suc.prems(2) obtain st1 x where s1: "render_sample st = Inr (st1, x)"
    by (cases "render_sample st") auto
  with Suc.prems(2) obtain xs1 where "render_block n st1 = Inr (st', xs1)"
    by (cases "render_block n st1") auto
  with Suc.IH render_sample_pool [OF Suc.prems(1) s1] show ?case by blast
qed

lemma process_pool: "pool_ok st \<Longrightarrow> process nch n st = Inr (st', out) \<Longrightarrow> pool_ok st'"
  by (auto simp: process_def split: if_splits sum.splits dest: render_block_pool)

lemma triggerAttack_pool_ok:
  assumes ok: "pool_ok st" and t: "triggerAttack n vel c st = Inr st'"
  shows "pool_ok st'"
proof -
  from ok have ne: "voices st \<noteq> []" by (auto simp: pool_ok_def)
  from ok have inv: "\<forall>v \<in> set (voices st). envState v \<noteq> IDLE \<longrightarrow> active v"
    by (auto simp: pool_ok_def list_all_iff slot_ok_def)
  from triggerAttack_pool [OF ne inv, of n vel c] t ok show ?thesis
    by (auto simp: pool_ok_def list_all_iff slot_ok_def)
qed

lemma handleMessage_pool:
  assumes "pool_ok st" and "handleMessage m st = Inr st'"
  shows "pool_ok st'"
proof (cases m)
  case (NOTE_ON n vel c)
  with assms show ?thesis by (auto dest: triggerAttack_pool_ok)
next
  case (NOTE_OFF n c)
  with assms show ?thesis
    by (auto simp: pool_ok_def triggerRelease_def release_voice_def list_all_iff slot_ok_def)
next
  case (SET_CHANNEL_WAVETABLE c samples)
  with assms show ?thesis
    by (auto simp: pool_ok_def split: option.splits if_splits sum.splits)
next
  case (SET_CHANNEL_ADSR c ad)
  with assms show ?thesis by (auto simp: pool_ok_def split: option.splits)
next
  case STOP_ALL
  with assms show ?thesis
    by (auto simp: pool_ok_def list_all_iff stop_voice_def slot_ok_def)
next
  case OTHER
  with assms show ?thesis by simp
qed

lemma step_pool:
  assumes "pool_ok st" and "step e st = Inr st'"
  shows "pool_ok st'"
proof (cases e)
  case (Deliver m)
  with assms show ?thesis by (auto dest: handleMessage_pool)
next
  case (Process nch n)
  with assms(2) obtain out where "process nch n st = Inr (st', out)"
    by (cases "process nch n st") auto
  with assms(1) show ?thesis by (rule process_pool)
qed

lemma run_pool: "pool_ok st \<Longrightarrow> run es st = Inr st' \<Longrightarrow> pool_ok st'"
proof (induction es arbitrary: st)
  case Nil
  then show ?case by simp
next
  case (Cons e es)
  from Cons.prems(2) obtain st1 where s1: "step e st = Inr st1" and r: "run es st1 = Inr st'"
    by (cases "step e st") auto
  from Cons.prems(1) s1 have "pool_ok st1" by (rule step_pool)
  with Cons.IH r show ?case by simp
qed

lemma constructor_pool: "pool_ok (constructor sr)"
  by (simp add: pool_ok_def constructor_def list_all_iff slot_ok_def idle_voice_def)

text \<open>
  Claim C1. On every pool that has a voice, \<open>triggerAttack\<close> claims exactly one slot \<open>k\<close>:
  the lowest index whose voice is \<open>IDLE\<close> if there is one; otherwise the lowest index whose
  voice is \<open>RELEASE\<close> if there is one; otherwise slot 0. Consequently, in every state the
  engine reaches from its constructor, seven note-ons in a row (one more than the six
  voices of the pool) leave all six voices active.
\<close>

theorem C1_triggerAttack_selection:
  "(voices st \<noteq> [] \<longrightarrow>
      (\<exists>k < length (voices st).
            select_voice (voices st) = Some k \<and>
            triggerAttack n vel ch st =
              Inr (st\<lparr>voices := (voices st)[k := attack_voice (sampleRateVal st) n vel ch (voices st ! k)]\<rparr>) \<and>
            (if \<exists>i < length (voices st). envState (voices st ! i) = IDLE
             then envState (voices st ! k) = IDLE \<and> (\<forall>j < k. envState (voices st ! j) \<noteq> IDLE)
             else if \<exists>i < length (voices st). envState (voices st ! i) = RELEASE
             then envState (voices st ! k) = RELEASE \<and> (\<forall>j < k. envState (voices st ! j) \<noteq> RELEASE)
             else k = 0))) \<and>
   (run es (constructor sr) = Inr st \<and> length ns = 7 \<longrightarrow>
      (\<exists>st'. run (note_on_events ns) st = Inr st' \<and>
             length (voices st') = 6 \<and>
             length (filter active (voices st')) = 6))"
proof (intro conjI impI)
  assume ne: "voices st \<noteq> []"
  from select_voice_spec [OF ne] obtain k where k: "k < length (voices st)"
    "select_voice (voices st) = Some k"
    "if \<exists>i < length (voices st). envState (voices st ! i) = IDLE
      then envState (voices st ! k) = IDLE \<and> (\<forall>j < k. envState (voices st ! j) \<noteq> IDLE)
      else if \<exists>i < length (voices st). envState (voices st ! i) = RELEASE
      then envState (voices st ! k) = RELEASE \<and> (\<forall>j < k. envState (voices st ! j) \<noteq> RELEASE)
      else k = 0"
    by blast
  then show "\<exists>k < length (voices st).
            select_voice (voices st) = Some k \<and>
            triggerAttack n vel ch st =
              Inr (st\<lparr>voices := (voices st)[k := attack_voice (sampleRateVal st) n vel ch (voices st ! k)]\<rparr>) \<and>
            (if \<exists>i < length (voices st). envState (voices st ! i) = IDLE
             then envState (voices st ! k) = IDLE \<and> (\<forall>j < k. envState (voices st ! j) \<noteq> IDLE)
             else if \<exists>i < length (voices st). envState (voices st ! i) = RELEASE
             then envState (voices st ! k) = RELEASE \<and> (\<forall>j < k. envState (voices st ! j) \<noteq> RELEASE)
             else k = 0)"
    by (intro exI [of _ k]) (simp add: triggerAttack_def)
next
  assume a: "run es (constructor sr) = Inr st \<and> length ns = 7"
  with run_pool [OF constructor_pool, of es sr st] have ok: "pool_ok st" by simp
  then have len: "length (voices st) = 6" and ne: "voices st \<noteq> []"
    and inv: "\<forall>v \<in> set (voices st). envState v \<noteq> IDLE \<longrightarrow> active v"
    by (auto simp: pool_ok_def list_all_iff slot_ok_def)
  from run_note_ons [OF ne inv, of ns] obtain st' where
    st': "run (note_on_events ns) st = Inr st'" "length (voices st') = length (voices st)"
      "\<forall>v \<in> set (voices st'). envState v \<noteq> IDLE \<longrightarrow> active v"
      "idle_count (voices st') = idle_count (voices st) - length ns"
    by blast
  have "idle_count (voices st) \<le> length (voices st)" by (simp add: idle_count_def)
  with st'(4) a len have "idle_count (voices st') = 0" by simp
  with st'(3) have "\<forall>v \<in> set (voices st'). active v" by (auto simp: idle_count_zero)
  then have "filter active (voices st') = voices st'" by simp
  with st' len show "\<exists>st'. run (note_on_events ns) st = Inr st' \<and>
                   length (voices st') = 6 \<and> length (filter active (voices st')) = 6"
    by simp
qed

text \<open>
  C1 on \<open>released_state\<close>: the state is reached, slot 1 (the first free one) is selected
  although slot 0 is releasing, and seven notes fill the pool.
\<close>

theorem C1_triggerAttack_selection_witness:
  "run [Deliver (NOTE_ON 69 127 0), Process 2 1, Deliver (NOTE_OFF 69 0)] (constructor 48000)
     = Inr released_state \<and>
   voices released_state \<noteq> [] \<and>
   select_voice (voices released_state) = Some 1 \<and>
   (\<exists>st'. run (note_on_events [(60, 100, 0), (62, 100, 0), (64, 100, 0), (65, 100, 0),
                               (67, 100, 0), (69, 100, 0), (71, 100, 0)]) released_state
            = Inr st' \<and>
          length (voices st') = 6 \<and> length (filter active (voices st')) = 6)"
proof -
  have r: "run [Deliver (NOTE_ON 69 127 0), Process 2 1, Deliver (NOTE_OFF 69 0)] (constructor 48000)
     = Inr released_state"
    by (simp add: released_state_def constructor_def triggerAttack_def select_voice_def idle_voice_def
      attack_voice_def process_def eval_nat_numeral process_voice_def array_get_def render_sample_def
      envelope_step_def oscillator_step_def default_channel_def Let_def WAVETABLE_SIZE_def
      triggerRelease_def release_voice_def)
  have ne: "voices released_state \<noteq> []" by (simp add: released_state_def)
  have sel: "select_voice (voices released_state) = Some 1"
    by (simp add: released_state_def select_voice_def idle_voice_def)
  from C1_triggerAttack_selection [of released_state 60 100 0
      "[Deliver (NOTE_ON 69 127 0), Process 2 1, Deliver (NOTE_OFF 69 0)]" 48000
      "[(60, 100, 0), (62, 100, 0), (64, 100, 0), (65, 100, 0),
        (67, 100, 0), (69, 100, 0), (71, 100, 0)]"] r
  have "\<exists>st'. run (note_on_events [(60, 100, 0), (62, 100, 0), (64, 100, 0), (65, 100, 0),
                               (67, 100, 0), (69, 100, 0), (71, 100, 0)]) released_state
            = Inr st' \<and>
          length (voices st') = 6 \<and> length (filter active (voices st')) = 6"
    by simp
  with r ne sel show ?thesis by blast
qed

subsection \<open>Messages with a channel outside the bank\<close>

text \<open>
  Claim C2. A \<open>NOTE_ON\<close> for channel 16 is not ignored: it claims voice 0 with that
  channel, and the next call of \<open>process\<close> throws a \<open>TypeError\<close> when it reads the
  \<open>adsr\<close> of the missing channel state.
\<close>

theorem C2_note_on_invalid_channel_throws:
  "handleMessage (NOTE_ON 60 100 16) (constructor 48000) \<noteq> Inr (constructor 48000) \<and>
   run [Deliver (NOTE_ON 60 100 16), Process 2 128] (constructor 48000) = Inl TypeError"
  by (simp add: constructor_def triggerAttack_def select_voice_def idle_voice_def
      attack_voice_def process_def eval_nat_numeral process_voice_def array_get_def render_sample_def)

subsection \<open>Setting the envelope parameters\<close>

text \<open>
  Claim C3, as the code has it. For every channel index inside the bank, a
  \<open>SET_CHANNEL_ADSR\<close> message stores the record it carries as it is: the sustain value
  read back is the one sent, whatever its range, and a voice in \<open>SUSTAIN\<close> on that
  channel takes exactly that value as its level.
\<close>

theorem C3_sustain_stored_as_sent:
  assumes "0 \<le> c" and "c < int (length (channels st))"
  shows "\<exists>st'. handleMessage (SET_CHANNEL_ADSR c ad) st = Inr st' \<and>
           array_get (channels st') c = Some ((channels st ! nat c)\<lparr>adsr := ad\<rparr>) \<and>
           adsr_s (adsr (channels st' ! nat c)) = adsr_s ad \<and>
           (\<forall>v sr. envState v = SUSTAIN \<longrightarrow>
              envLevel (envelope_step sr (adsr (channels st' ! nat c)) v) = adsr_s ad)"
  using assms by (simp add: array_get_def envelope_step_def)

text \<open>C3 at channel 3 of the fresh engine, with a sustain of \<open>-1\<close>.\<close>

theorem C3_sustain_stored_as_sent_witness:
  "(0::int) \<le> 3 \<and> 3 < int (length (channels (constructor 48000))) \<and>
   (\<exists>st'. handleMessage (SET_CHANNEL_ADSR 3 \<lparr>adsr_a = 0, adsr_d = 0, adsr_s = -1, adsr_r = 0\<rparr>)
            (constructor 48000) = Inr st' \<and>
      adsr_s (adsr (channels st' ! nat 3)) = -1)"
proof -
  have h1: "(0::int) \<le> 3" by simp
  have h2: "3 < int (length (channels (constructor 48000)))" by (simp add: constructor_def)
  from C3_sustain_stored_as_sent [OF h1 h2, of "\<lparr>adsr_a = 0, adsr_d = 0, adsr_s = -1, adsr_r = 0\<rparr>"]
  obtain st' where
    "handleMessage (SET_CHANNEL_ADSR 3 \<lparr>adsr_a = 0, adsr_d = 0, adsr_s = -1, adsr_r = 0\<rparr>)
       (constructor 48000) = Inr st'"
    "adsr_s (adsr (channels st' ! nat 3)) = -1"
    by auto
  with h1 h2 show ?thesis by blast
qed

text \<open>
  The claim C3 as it is written fails: a sustain of 2 is stored as 2, while clamping it into
  \<open>[0,1]\<close> would give 1.
\<close>

theorem C3_counterexample:
  "map_sum id (\<lambda>st. adsr_s (adsr (channels st ! 0)))
     (handleMessage (SET_CHANNEL_ADSR 0 \<lparr>adsr_a = 0.1, adsr_d = 0.1, adsr_s = 2, adsr_r = 0.2\<rparr>)
        (constructor 48000)) = Inr 2 \<and>
   map_sum id (\<lambda>st. adsr_s (adsr (channels st ! 0)))
     (handleMessage (SET_CHANNEL_ADSR 0 \<lparr>adsr_a = 0.1, adsr_d = 0.1, adsr_s = 2, adsr_r = 0.2\<rparr>)
        (constructor 48000)) \<noteq> Inr (max 0 (min 1 2))"
  by (simp add: constructor_def array_get_def)

subsection \<open>The envelope level stays in range\<close>

lemma envelope_step_ok:
  assumes s: "0 \<le> adsr_s ad" "adsr_s ad \<le> 1" and v: "voice_ok v"
  shows "voice_ok (envelope_step sr ad v)"
proof (cases "envState v")
  case IDLE
  with v show ?thesis by (simp add: envelope_step_def)
next
  case ATTACK
  show ?thesis
  proof (cases "adsr_a ad * sr \<le> 0")
    case True
    with ATTACK v show ?thesis by (simp add: envelope_step_def voice_ok_def)
  next
    case False
    define q where "q = 1 / (adsr_a ad * sr)"
    from False have q: "0 \<le> q" by (simp add: q_def)
    from False ATTACK have "envelope_step sr ad v =
        (if envLevel v + q \<ge> 1 then v\<lparr>envLevel := 1, envState := DECAY, envTime := 0\<rparr>
         else v\<lparr>envLevel := envLevel v + q\<rparr>)"
      by (simp add: envelope_step_def Let_def q_def)
    with v q show ?thesis by (simp add: voice_ok_def)
  qed
next
  case DECAY
  show ?thesis
  proof (cases "adsr_d ad * sr \<le> 0")
    case True
    with DECAY v s show ?thesis by (simp add: envelope_step_def voice_ok_def)
  next
    case False
    define q where "q = (1 - adsr_s ad) / (adsr_d ad * sr)"
    from False s have q: "0 \<le> q" by (simp add: q_def)
    from False DECAY have "envelope_step sr ad v =
        (if envLevel v - q \<le> adsr_s ad then v\<lparr>envLevel := adsr_s ad, envState := SUSTAIN\<rparr>
         else v\<lparr>envLevel := envLevel v - q\<rparr>)"
      by (simp add: envelope_step_def Let_def q_def)
    with v s q show ?thesis by (simp add: voice_ok_def)
  qed
next
  case SUSTAIN
  with v s show ?thesis by (simp add: envelope_step_def voice_ok_def)
next
  case RELEASE
  show ?thesis
  proof (cases "adsr_r ad * sr \<le> 0")
    case True
    with RELEASE v show ?thesis by (simp add: envelope_step_def voice_ok_def)
  next
    case False
    define q where "q = releaseStartLevel v / (adsr_r ad * sr)"
    from False v have q: "0 \<le> q" by (simp add: q_def voice_ok_def)
    from False RELEASE have "envelope_step sr ad v =
        (if envLevel v - q \<le> 0 then v\<lparr>envLevel := 0, active := False, envState := IDLE\<rparr>
         else v\<lparr>envLevel := envLevel v - q\<rparr>)"
      by (simp add: envelope_step_def Let_def q_def)
    with v q show ?thesis by (simp add: voice_ok_def)
  qed
qed

lemma oscillator_step_ok: "voice_ok w \<Longrightarrow> voice_ok (fst (oscillator_step wt w acc))"
  by (simp add: oscillator_step_def voice_ok_def Let_def)

lemma array_get_in_set: "array_get xs i = Some x \<Longrightarrow> x \<in> set xs"
  by (auto simp: array_get_def split: if_splits)

lemma process_voice_ok:
  assumes "list_all chan_ok chans" and "voice_ok v"
    and "process_voice chans sr v acc = Inr (v', acc')"
  shows "voice_ok v'"
proof (cases "active v")
  case False
  with assms show ?thesis by (simp add: process_voice_def)
next
  case True
  with assms(3) obtain chState where ch: "array_get chans (channel v) = Some chState"
    by (cases "array_get chans (channel v)") (simp_all add: process_voice_def)
  with assms(1) have "chan_ok chState"
    by (auto simp: list_all_iff dest: array_get_in_set)
  then have "voice_ok (envelope_step sr (adsr chState) v)"
    using assms(2) by (simp add: chan_ok_def envelope_step_ok)
  then have "voice_ok (fst (oscillator_step (wavetable chState) (envelope_step sr (adsr chState) v) acc))"
    by (rule oscillator_step_ok)
  with True ch assms(3) show ?thesis by (simp add: process_voice_def)
qed

lemma process_voices_ok:
  "list_all chan_ok chans \<Longrightarrow> list_all voice_ok vs \<Longrightarrow>
   process_voices chans sr vs acc = Inr (vs', acc') \<Longrightarrow> list_all voice_ok vs'"
proof (induction vs arbitrary: acc vs' acc')
  case Nil
  then show ?case by simp
next
  case (Cons v vs)
  from Cons.prems(3) obtain v1 a1 where v1: "process_voice chans sr v acc = Inr (v1, a1)"
    by (cases "process_voice chans sr v acc") auto
  with Cons.prems(3) obtain vs1 a2 where vs1: "process_voices chans sr vs a1 = Inr (vs1, a2)"
    by (cases "process_voices chans sr vs a1") auto
  with v1 Cons.prems(3) have eq: "vs' = v1 # vs1" by simp
  from Cons.prems(1,2) v1 have "voice_ok v1" by (auto intro: process_voice_ok)
  moreover from Cons.IH [OF Cons.prems(1) _ vs1] Cons.prems(2) have "list_all voice_ok vs1" by simp
  ultimately show ?case using eq by simp
qed

lemma render_sample_ok:
  "levels_ok st \<Longrightarrow> render_sample st = Inr (st', x) \<Longrightarrow> levels_ok st'"
  by (auto simp: render_sample_def levels_ok_def split: sum.splits dest: process_voices_ok)

lemma render_block_ok:
  "levels_ok st \<Longrightarrow> render_block n st = Inr (st', xs) \<Longrightarrow> levels_ok st'"
proof (induction n arbitrary: st st' xs)
  case 0
  then show ?case by simp
next
  case (Suc n)
  from Suc.prems(2) obtain st1 x where s1: "render_sample st = Inr (st1, x)"
    by (cases "render_sample st") auto
  with Suc.prems(2) obtain xs1 where "render_block n st1 = Inr (st', xs1)"
    by (cases "render_block n st1") auto
  with Suc.IH render_sample_ok [OF Suc.prems(1) s1] show ?case by blast
qed

lemma process_ok: "levels_ok st \<Longrightarrow> process nch n st = Inr (st', out) \<Longrightarrow> levels_ok st'"
  by (auto simp: process_def split: if_splits sum.splits dest: render_block_ok)

lemma attack_voice_ok: "voice_ok w \<Longrightarrow> voice_ok (attack_voice sr n vel c w)"
  by (simp add: attack_voice_def voice_ok_def Let_def)

lemma list_all_update:
  "list_all P xs \<Longrightarrow> (k < length xs \<Longrightarrow> P y) \<Longrightarrow> list_all P (xs[k := y])"
  by (cases "k < length xs") (auto simp: list_all_length nth_list_update)

lemma triggerAttack_ok:
  assumes ok: "levels_ok st" and t: "triggerAttack n vel c st = Inr st'"
  shows "levels_ok st'"
proof -
  from t obtain k where
    st': "st' = st\<lparr>voices := (voices st)[k := attack_voice (sampleRateVal st) n vel c (voices st ! k)]\<rparr>"
    by (auto simp: triggerAttack_def split: option.splits)
  from ok have vs: "list_all voice_ok (voices st)" by (simp add: levels_ok_def)
  have "list_all voice_ok ((voices st)[k := attack_voice (sampleRateVal st) n vel c (voices st ! k)])"
  proof (rule list_all_update)
    show "list_all voice_ok (voices st)" by (rule vs)
  next
    assume "k < length (voices st)"
    with vs have "voice_ok (voices st ! k)" by (simp add: list_all_length)
    then show "voice_ok (attack_voice (sampleRateVal st) n vel c (voices st ! k))"
      by (rule attack_voice_ok)
  qed
  with ok st' show ?thesis by (simp add: levels_ok_def)
qed

lemma handleMessage_ok:
  assumes "levels_ok st" and "sustain_in_range (Deliver m)" and "handleMessage m st = Inr st'"
  shows "levels_ok st'"
proof (cases m)
  case (NOTE_ON n vel c)
  with assms show ?thesis by (auto dest: triggerAttack_ok)
next
  case (NOTE_OFF n c)
  with assms show ?thesis
    by (auto simp: levels_ok_def triggerRelease_def release_voice_def list_all_iff voice_ok_def)
next
  case (SET_CHANNEL_WAVETABLE c samples)
  show ?thesis
  proof (cases "array_get (channels st) c")
    case None
    with SET_CHANNEL_WAVETABLE assms show ?thesis by simp
  next
    case (Some ch)
    with assms(1) have "chan_ok ch"
      by (auto simp: levels_ok_def list_all_iff dest: array_get_in_set)
    then have "chan_ok (ch\<lparr>wavetable := wt\<rparr>)" for wt by (simp add: chan_ok_def)
    with assms(1) have "list_all chan_ok ((channels st)[nat c := ch\<lparr>wavetable := wt\<rparr>])" for wt
      by (simp add: levels_ok_def list_all_update)
    with Some SET_CHANNEL_WAVETABLE assms show ?thesis
      by (auto simp: levels_ok_def split: if_splits sum.splits)
  qed
next
  case (SET_CHANNEL_ADSR c ad)
  show ?thesis
  proof (cases "array_get (channels st) c")
    case None
    with SET_CHANNEL_ADSR assms show ?thesis by simp
  next
    case (Some ch)
    from SET_CHANNEL_ADSR assms(2) have "chan_ok (ch\<lparr>adsr := ad\<rparr>)" by (simp add: chan_ok_def)
    with assms(1) have "list_all chan_ok ((channels st)[nat c := ch\<lparr>adsr := ad\<rparr>])"
      by (simp add: levels_ok_def list_all_update)
    with Some SET_CHANNEL_ADSR assms show ?thesis by (auto simp: levels_ok_def)
  qed
next
  case STOP_ALL
  with assms show ?thesis
    by (auto simp: levels_ok_def list_all_iff stop_voice_def voice_ok_def)
next
  case OTHER
  with assms show ?thesis by simp
qed

lemma step_ok:
  assumes "levels_ok st" and "sustain_in_range e" and "step e st = Inr st'"
  shows "levels_ok st'"
proof (cases e)
  case (Deliver m)
  with assms show ?thesis by (auto dest: handleMessage_ok)
next
  case (Process nch n)
  with assms(3) obtain out where "process nch n st = Inr (st', out)"
    by (cases "process nch n st") auto
  with assms(1) show ?thesis by (rule process_ok)
qed

lemma run_ok:
  "levels_ok st \<Longrightarrow> \<forall>e \<in> set es. sustain_in_range e \<Longrightarrow> run es st = Inr st' \<Longrightarrow> levels_ok st'"
proof (induction es arbitrary: st)
  case Nil
  then show ?case by simp
next
  case (Cons e es)
  from Cons.prems(3) obtain st1 where s1: "step e st = Inr st1" and r: "run es st1 = Inr st'"
    by (cases "step e st") auto
  from Cons.prems(1,2) s1 have "levels_ok st1" by (auto intro: step_ok)
  with Cons.IH r Cons.prems(2) show ?case by simp
qed

lemma constructor_ok: "levels_ok (constructor sr)"
  by (simp add: levels_ok_def constructor_def list_all_iff chan_ok_def voice_ok_def
      default_channel_def idle_voice_def)

text \<open>
  Claim C4, as the code has it. In every state the engine reaches from its constructor by
  messages and render calls, provided no \<open>SET_CHANNEL_ADSR\<close> message carried a sustain
  outside \<open>[0,1]\<close>, every voice has \<open>0 \<le> envLevel \<le> 1\<close>.
\<close>

theorem C4_envLevel_bounded:
  assumes "\<forall>e \<in> set es. sustain_in_range e" and "run es (constructor sr) = Inr st"
  shows "\<forall>v \<in> set (voices st). 0 \<le> envLevel v \<and> envLevel v \<le> 1"
proof -
  from run_ok [OF constructor_ok assms] show ?thesis
    by (simp add: levels_ok_def list_all_iff voice_ok_def)
qed

text \<open>C4 on a run that sets a sustain of one half, starts a note and renders two samples.\<close>

theorem C4_envLevel_bounded_witness:
  "list_all sustain_in_range
      [Deliver (SET_CHANNEL_ADSR 0 \<lparr>adsr_a = 0, adsr_d = 0, adsr_s = 1/2, adsr_r = 0\<rparr>),
       Deliver (NOTE_ON 69 127 0), Process 1 2] \<and>
   (\<exists>st. run [Deliver (SET_CHANNEL_ADSR 0 \<lparr>adsr_a = 0, adsr_d = 0, adsr_s = 1/2, adsr_r = 0\<rparr>),
              Deliver (NOTE_ON 69 127 0), Process 1 2] (constructor 48000) = Inr st \<and>
         envLevel (voices st ! 0) = 1/2 \<and>
         list_all (\<lambda>v. 0 \<le> envLevel v \<and> envLevel v \<le> 1) (voices st))"
proof -
  let ?es = "[Deliver (SET_CHANNEL_ADSR 0 \<lparr>adsr_a = 0, adsr_d = 0, adsr_s = 1/2, adsr_r = 0\<rparr>),
              Deliver (NOTE_ON 69 127 0), Process 1 2]"
  have h: "\<forall>e \<in> set ?es. sustain_in_range e" by simp
  have lvl: "map_sum id (\<lambda>st. envLevel (voices st ! 0)) (run ?es (constructor 48000)) = Inr (1/2)"
    by (simp add: constructor_def triggerAttack_def select_voice_def idle_voice_def
      attack_voice_def process_def eval_nat_numeral process_voice_def array_get_def render_sample_def
      envelope_step_def oscillator_step_def default_channel_def Let_def)
  then obtain st where st: "run ?es (constructor 48000) = Inr st"
    by (cases "run ?es (constructor 48000)") auto
  with lvl have "envLevel (voices st ! 0) = 1/2" by simp
  moreover from C4_envLevel_bounded [OF h st]
  have "\<forall>v \<in> set (voices st). 0 \<le> envLevel v \<and> envLevel v \<le> 1" .
  ultimately show ?thesis using st by (simp add: list_all_iff)
qed

text \<open>
  The claim C4 as it is written fails: after a sustain of 2 is set on channel 0 (with zero
  attack and decay times), the second rendered sample of a note leaves voice 0 at level 2.
\<close>

theorem C4_counterexample:
  "map_sum id (\<lambda>st. envLevel (voices st ! 0))
     (run [Deliver (SET_CHANNEL_ADSR 0 \<lparr>adsr_a = 0, adsr_d = 0, adsr_s = 2, adsr_r = 0\<rparr>),
           Deliver (NOTE_ON 69 127 0),
           Process 1 2] (constructor 48000)) = Inr 2"
  by (simp add: constructor_def triggerAttack_def select_voice_def idle_voice_def
      attack_voice_def process_def eval_nat_numeral process_voice_def array_get_def render_sample_def
      envelope_step_def oscillator_step_def default_channel_def Let_def)

subsection \<open>The oscillator phase\<close>

lemma attack_voice_phase_ok:
  assumes "0 < sr" and "440 * 2 powr (real_of_int (n - 69) / 12) \<le> sr"
  shows "phase_ok (attack_voice sr n vel c w)"
proof -
  define f where "f = 440 * (2::real) powr (real_of_int (n - 69) / 12)"
  define q where "q = f / sr"
  have f0: "0 \<le> f" by (simp add: f_def)
  from assms have fs: "f \<le> sr" by (simp add: f_def)
  from f0 assms(1) have q0: "0 \<le> q" by (simp add: q_def)
  from fs assms(1) have q1: "q \<le> 1" by (simp add: q_def)
  have ps: "phaseStep (attack_voice sr n vel c w) = q * 32"
    by (simp add: attack_voice_def Let_def f_def q_def WAVETABLE_SIZE_def)
  have ph: "phase (attack_voice sr n vel c w) = 0"
    by (simp add: attack_voice_def Let_def)
  from q0 q1 show ?thesis by (simp add: phase_ok_def ps ph WAVETABLE_SIZE_def)
qed

lemma envelope_step_phase_ok: "phase_ok v \<Longrightarrow> phase_ok (envelope_step sr ad v)"
  by (simp add: phase_ok_def envelope_step_phase envelope_step_phaseStep)

lemma oscillator_step_phase_ok: "phase_ok w \<Longrightarrow> phase_ok (fst (oscillator_step wt w acc))"
  by (simp add: oscillator_step_def phase_ok_def Let_def WAVETABLE_SIZE_def)

lemma process_voice_phase_ok:
  assumes "phase_ok v" and "process_voice chans sr v acc = Inr (v', acc')"
  shows "phase_ok v'"
proof (cases "active v")
  case False
  with assms show ?thesis by (simp add: process_voice_def)
next
  case True
  with assms(2) obtain chState where ch: "array_get chans (channel v) = Some chState"
    by (cases "array_get chans (channel v)") (simp_all add: process_voice_def)
  from assms(1) have "phase_ok (envelope_step sr (adsr chState) v)"
    by (rule envelope_step_phase_ok)
  then have "phase_ok (fst (oscillator_step (wavetable chState) (envelope_step sr (adsr chState) v) acc))"
    by (rule oscillator_step_phase_ok)
  with True ch assms(2) show ?thesis by (simp add: process_voice_def)
qed

lemma process_voices_phase_ok:
  "list_all phase_ok vs \<Longrightarrow> process_voices chans sr vs acc = Inr (vs', acc') \<Longrightarrow>
     list_all phase_ok vs'"
proof (induction vs arbitrary: acc vs' acc')
  case Nil
  then show ?case by simp
next
  case (Cons v vs)
  from Cons.prems(2) obtain v1 a1 where v1: "process_voice chans sr v acc = Inr (v1, a1)"
    by (cases "process_voice chans sr v acc") auto
  with Cons.prems(2) obtain vs1 a2 where vs1: "process_voices chans sr vs a1 = Inr (vs1, a2)"
    by (cases "process_voices chans sr vs a1") auto
  with v1 Cons.prems(2) have eq: "vs' = v1 # vs1" by simp
  from Cons.prems(1) v1 have "phase_ok v1" by (auto intro: process_voice_phase_ok)
  moreover from Cons.IH [OF _ vs1] Cons.prems(1) have "list_all phase_ok vs1" by simp
  ultimately show ?case using eq by simp
qed

lemma render_sample_phases:
  "phases_ok sr st \<Longrightarrow> render_sample st = Inr (st', x) \<Longrightarrow> phases_ok sr st'"
  by (auto simp: render_sample_def phases_ok_def split: sum.splits dest: process_voices_phase_ok)

lemma render_block_phases:
  "phases_ok sr st \<Longrightarrow> render_block n st = Inr (st', xs) \<Longrightarrow> phases_ok sr st'"
proof (induction n arbitrary: st st' xs)
  case 0
  then show ?case by simp
next
  case (Suc n)
  from Suc.prems(2) obtain st1 x where s1: "render_sample st = Inr (st1, x)"
    by (cases "render_sample st") auto
  with Suc.prems(2) obtain xs1 where "render_block n st1 = Inr (st', xs1)"
    by (cases "render_block n st1") auto
  with Suc.IH render_sample_phases [OF Suc.prems(1) s1] show ?case by blast
qed

lemma process_phases:
  "phases_ok sr st \<Longrightarrow> process nch n st = Inr (st', out) \<Longrightarrow> phases_ok sr st'"
  by (auto simp: process_def split: if_splits sum.splits dest: render_block_phases)

lemma triggerAttack_phases:
  assumes ok: "phases_ok sr st" and sr: "0 < sr"
    and band: "440 * 2 powr (real_of_int (n - 69) / 12) \<le> sr"
    and t: "triggerAttack n vel c st = Inr st'"
  shows "phases_ok sr st'"
proof -
  from t obtain k where
    st': "st' = st\<lparr>voices := (voices st)[k := attack_voice (sampleRateVal st) n vel c (voices st ! k)]\<rparr>"
    by (auto simp: triggerAttack_def split: option.splits)
  from ok have rate: "sampleRateVal st = sr" and vs: "list_all phase_ok (voices st)"
    by (simp_all add: phases_ok_def)
  have "phase_ok (attack_voice sr n vel c (voices st ! k))"
    using sr band by (rule attack_voice_phase_ok)
  with vs have "list_all phase_ok ((voices st)[k := attack_voice sr n vel c (voices st ! k)])"
    by (simp add: list_all_update)
  with rate st' show ?thesis by (simp add: phases_ok_def)
qed

lemma handleMessage_phases:
  assumes "phases_ok sr st" and "0 < sr" and "note_in_band sr (Deliver m)"
    and "handleMessage m st = Inr st'"
  shows "phases_ok sr st'"
proof (cases m)
  case (NOTE_ON n vel c)
  with assms show ?thesis by (auto dest: triggerAttack_phases)
next
  case (NOTE_OFF n c)
  with assms show ?thesis
    by (auto simp: phases_ok_def triggerRelease_def release_voice_def list_all_iff phase_ok_def)
next
  case (SET_CHANNEL_WAVETABLE c samples)
  with assms show ?thesis
    by (auto simp: phases_ok_def split: option.splits if_splits sum.splits)
next
  case (SET_CHANNEL_ADSR c ad)
  with assms show ?thesis by (auto simp: phases_ok_def split: option.splits)
next
  case STOP_ALL
  with assms show ?thesis
    by (auto simp: phases_ok_def list_all_iff stop_voice_def phase_ok_def)
next
  case OTHER
  with assms show ?thesis by simp
qed

lemma step_phases:
  assumes "phases_ok sr st" and "0 < sr" and "note_in_band sr e" and "step e st = Inr st'"
  shows "phases_ok sr st'"
proof (cases e)
  case (Deliver m)
  with assms show ?thesis by (auto dest: handleMessage_phases)
next
  case (Process nch n)
  with assms(4) obtain out where "process nch n st = Inr (st', out)"
    by (cases "process nch n st") auto
  with assms(1) show ?thesis by (rule process_phases)
qed

lemma run_phases:
  "phases_ok sr st \<Longrightarrow> 0 < sr \<Longrightarrow> \<forall>e \<in> set es. note_in_band sr e \<Longrightarrow>
     run es st = Inr st' \<Longrightarrow> phases_ok sr st'"
proof (induction es arbitrary: st)
  case Nil
  then show ?case by simp
next
  case (Cons e es)
  from Cons.prems(4) obtain st1 where s1: "step e st = Inr st1" and r: "run es st1 = Inr st'"
    by (cases "step e st") auto
  from Cons.prems(1,2,3) s1 have "phases_ok sr st1" by (auto intro: step_phases)
  with Cons.IH r Cons.prems(2,3) show ?case by simp
qed

lemma constructor_phases: "phases_ok sr (constructor sr)"
  by (simp add: phases_ok_def constructor_def list_all_iff phase_ok_def idle_voice_def
      WAVETABLE_SIZE_def)

text \<open>
  Claim C5, as the code has it. For every active voice and every rendered sample on which
  the voice's gain \<open>envLevel * velocity\<close> (after the envelope step) exceeds \<open>0.0001\<close>, the
  phase advances by \<open>phaseStep\<close> and, when the advanced phase reaches or exceeds
  \<open>WAVETABLE_SIZE\<close>, wraps by a single subtraction of \<open>WAVETABLE_SIZE\<close>; on the other
  samples the phase is left as it is. One sample keeps a phase in \<open>[0, WAVETABLE_SIZE)\<close>
  there when \<open>0 \<le> phaseStep \<le> WAVETABLE_SIZE\<close>. And in every state the engine reaches from
  its constructor, at a positive sample rate, by render calls and messages of which no
  \<open>NOTE_ON\<close> carries a note whose frequency \<open>440 * 2^((note - 69) / 12)\<close> is above the
  sample rate, the phase of every voice is in \<open>[0, WAVETABLE_SIZE)\<close>.
\<close>

theorem C5_phase_advance_and_wrap:
  "(process_voice chans r v acc = Inr (v', acc') \<and> active v \<longrightarrow>
      (envLevel v' * velocity v' > 0.0001 \<longrightarrow>
         phase v' = (if phase v + phaseStep v \<ge> real WAVETABLE_SIZE
                     then phase v + phaseStep v - real WAVETABLE_SIZE
                     else phase v + phaseStep v)) \<and>
      (envLevel v' * velocity v' \<le> 0.0001 \<longrightarrow> phase v' = phase v) \<and>
      (0 \<le> phase v \<and> phase v < real WAVETABLE_SIZE \<and>
       0 \<le> phaseStep v \<and> phaseStep v \<le> real WAVETABLE_SIZE \<longrightarrow>
         0 \<le> phase v' \<and> phase v' < real WAVETABLE_SIZE)) \<and>
   (0 < sr \<and> (\<forall>e \<in> set es. note_in_band sr e) \<and> run es (constructor sr) = Inr st \<longrightarrow>
      (\<forall>u \<in> set (voices st). 0 \<le> phase u \<and> phase u < real WAVETABLE_SIZE))"
proof (intro conjI impI)
  assume a: "0 < sr \<and> (\<forall>e \<in> set es. note_in_band sr e) \<and> run es (constructor sr) = Inr st"
  then have "phases_ok sr st"
    using run_phases [OF constructor_phases, of sr es st] by simp
  then show "\<forall>u \<in> set (voices st). 0 \<le> phase u \<and> phase u < real WAVETABLE_SIZE"
    by (simp add: phases_ok_def list_all_iff phase_ok_def)
next
  assume "process_voice chans r v acc = Inr (v', acc') \<and> active v"
  then have a: "process_voice chans r v acc = Inr (v', acc')" "active v" by simp_all
  then obtain chState where "array_get chans (channel v) = Some chState"
    by (cases "array_get chans (channel v)") (simp_all add: process_voice_def)
  with a have
    v': "oscillator_step (wavetable chState) (envelope_step r (adsr chState) v) acc = (v', acc')"
    by (simp add: process_voice_def)
  let ?w = "envelope_step r (adsr chState) v"
  from v' have fst: "v' = fst (oscillator_step (wavetable chState) ?w acc)" by simp
  have g: "envLevel v' * velocity v' = envLevel ?w * velocity ?w"
    by (simp add: fst oscillator_step_gain)
  have p: "phase v' =
     (if envLevel ?w * velocity ?w > 0.0001
      then (if phase v + phaseStep v \<ge> 32 then phase v + phaseStep v - 32
            else phase v + phaseStep v)
      else phase v)"
    by (simp add: fst oscillator_step_phase envelope_step_phase envelope_step_phaseStep)
  show "envLevel v' * velocity v' > 0.0001 \<Longrightarrow>
         phase v' = (if phase v + phaseStep v \<ge> real WAVETABLE_SIZE
                     then phase v + phaseStep v - real WAVETABLE_SIZE
                     else phase v + phaseStep v)"
    unfolding g p by (simp add: WAVETABLE_SIZE_def)
  show "envLevel v' * velocity v' \<le> 0.0001 \<Longrightarrow> phase v' = phase v"
    unfolding g p by simp
  show "0 \<le> phase v \<and> phase v < real WAVETABLE_SIZE \<and>
       0 \<le> phaseStep v \<and> phaseStep v \<le> real WAVETABLE_SIZE \<Longrightarrow> 0 \<le> phase v'"
    unfolding p by (auto simp: WAVETABLE_SIZE_def)
  show "0 \<le> phase v \<and> phase v < real WAVETABLE_SIZE \<and>
       0 \<le> phaseStep v \<and> phaseStep v \<le> real WAVETABLE_SIZE \<Longrightarrow> phase v' < real WAVETABLE_SIZE"
    unfolding p by (auto simp: WAVETABLE_SIZE_def)
qed

text \<open>
  C5 on a sustained voice at phase 31 with a step of 2 (the phase wraps to 1), and on a run
  at 48000 Hz that starts note 69 and renders three samples (the phase of voice 0 has
  advanced three steps of \<open>22/75\<close>).
\<close>

theorem C5_phase_advance_and_wrap_witness:
  "process_voice [flat_channel] 48000
      (idle_voice\<lparr>active := True, envState := SUSTAIN, velocity := 1, phase := 31, phaseStep := 2\<rparr>)
      (Some 0)
     = Inr (idle_voice\<lparr>active := True, envState := SUSTAIN, velocity := 1, phase := 1, phaseStep := 2,
                       envLevel := 1/2\<rparr>, Some 0) \<and>
   active (idle_voice\<lparr>active := True, envState := SUSTAIN, velocity := 1, phase := 31, phaseStep := 2\<rparr>) \<and>
   (0.0001::real) < 1/2 * 1 \<and> (31::real) + 2 \<ge> real WAVETABLE_SIZE \<and>
   (1::real) = 31 + 2 - real WAVETABLE_SIZE \<and>
   (0::real) < 48000 \<and>
   list_all (note_in_band 48000) [Deliver (NOTE_ON 69 127 0), Process 2 3] \<and>
   (\<exists>st. run [Deliver (NOTE_ON 69 127 0), Process 2 3] (constructor 48000) = Inr st \<and>
         map phase (voices st) = [22 / 25, 0, 0, 0, 0, 0] \<and>
         list_all (\<lambda>u. 0 \<le> phase u \<and> phase u < real WAVETABLE_SIZE) (voices st))"
proof -
  let ?v = "idle_voice\<lparr>active := True, envState := SUSTAIN, velocity := 1, phase := 31, phaseStep := 2\<rparr>"
  let ?v' = "idle_voice\<lparr>active := True, envState := SUSTAIN, velocity := 1, phase := 1, phaseStep := 2,
                       envLevel := 1/2\<rparr>"
  let ?es = "[Deliver (NOTE_ON 69 127 0), Process 2 3]"
  have a: "active ?v" by simp
  have r: "process_voice [flat_channel] 48000 ?v (Some 0) = Inr (?v', Some 0)"
    by (simp add: process_voice_def array_get_def idle_voice_def flat_channel_def
        envelope_step_def oscillator_step_def WAVETABLE_SIZE_def js_rem_def num_add_def num_mul_def)
  have band: "\<forall>e \<in> set ?es. note_in_band 48000 e" by simp
  have ph: "map_sum id (\<lambda>st. map phase (voices st)) (run ?es (constructor 48000))
      = Inr [22 / 25, 0, 0, 0, 0, 0]"
    by (simp add: constructor_def triggerAttack_def select_voice_def idle_voice_def
      attack_voice_def process_def eval_nat_numeral process_voice_def array_get_def render_sample_def
      envelope_step_def oscillator_step_def default_channel_def Let_def WAVETABLE_SIZE_def)
  then obtain st where st: "run ?es (constructor 48000) = Inr st"
    by (cases "run ?es (constructor 48000)") auto
  with ph have phs: "map phase (voices st) = [22 / 25, 0, 0, 0, 0, 0]" by simp
  note C5 = C5_phase_advance_and_wrap [of "[flat_channel]" 48000 ?v "Some 0" ?v' "Some 0" 48000 ?es st]
  from C5 r a have "phase ?v' = 31 + 2 - real WAVETABLE_SIZE"
    by (simp add: idle_voice_def WAVETABLE_SIZE_def)
  moreover from C5 band st
  have "\<forall>u \<in> set (voices st). 0 \<le> phase u \<and> phase u < real WAVETABLE_SIZE"
    by simp
  then have "list_all (\<lambda>u. 0 \<le> phase u \<and> phase u < real WAVETABLE_SIZE) (voices st)"
    by (simp add: list_all_iff)
  ultimately show ?thesis using r a st phs by (simp add: WAVETABLE_SIZE_def)
qed

text \<open>
  The claim C5 as it is written fails at the gain gate: a note of velocity 0 claims voice
  0, which is active, but the first rendered sample leaves its phase at 0 although its
  \<open>phaseStep\<close> is \<open>22/75\<close>.
\<close>

theorem C5_counterexample:
  "map_sum id (\<lambda>st. (active (voices st ! 0), phase (voices st ! 0), phaseStep (voices st ! 0)))
     (run [Deliver (NOTE_ON 69 0 0), Process 1 1] (constructor 48000)) = Inr (True, 0, 22 / 75)"
  by (simp add: constructor_def triggerAttack_def select_voice_def idle_voice_def
      attack_voice_def process_def eval_nat_numeral process_voice_def array_get_def render_sample_def
      envelope_step_def oscillator_step_def default_channel_def Let_def WAVETABLE_SIZE_def)

subsubsection \<open>A note above the sample rate\<close>

text \<open>
  The bound on the note frequency in the run invariant is what the code needs. At a sample
  rate of 8000 the step of note 127 exceeds 48, and after two samples one subtraction per
  sample has left the phase of voice 0 at or above \<open>WAVETABLE_SIZE\<close>, outside the range
  \<open>0-31.99\<close> that the comment on the \<open>phase\<close> field states.
\<close>

lemma two_powr_bound: "28 < (2::real) powr (real_of_int (127 - 69) / 12)"
proof (rule ccontr)
  let ?x = "(2::real) powr (real_of_int (127 - 69) / 12)"
  assume "\<not> 28 < ?x"
  then have "?x \<le> 28" by simp
  moreover have "0 \<le> ?x" by simp
  ultimately have "?x ^ 12 \<le> 28 ^ 12" by (rule power_mono)
  moreover have "?x ^ 12 = 2 powr (real (12::nat) * (real_of_int (127 - 69) / 12))"
    by (rule powr_power) simp
  moreover have "(2::real) powr (real (12::nat) * (real_of_int (127 - 69) / 12)) = 2 ^ 58"
    by simp
  ultimately show False by simp
qed

lemma process_voice_attack_wrap:
  assumes "active v" and "envState v = ATTACK"
    and "array_get chans (channel v) = Some ch"
    and "0 < adsr_a (adsr ch) * sr"
    and "envLevel v + 1 / (adsr_a (adsr ch) * sr) < 1"
    and "(envLevel v + 1 / (adsr_a (adsr ch) * sr)) * velocity v > 0.0001"
    and "phase v + phaseStep v \<ge> 32"
  shows "\<exists>acc'. process_voice chans sr v acc =
           Inr (v\<lparr>envLevel := envLevel v + 1 / (adsr_a (adsr ch) * sr),
                  phase := phase v + phaseStep v - 32\<rparr>, acc')"
  using assms
  by (simp add: process_voice_def envelope_step_def oscillator_step_def Let_def WAVETABLE_SIZE_def)

lemma render_sample_first_voice:
  assumes "voices st = v # vs" and "\<forall>u \<in> set vs. \<not> active u"
    and "process_voice (channels st) (sampleRateVal st) v (Some 0) = Inr (v', acc')"
  shows "render_sample st = Inr (st\<lparr>voices := v' # vs\<rparr>, typed_array_store (num_div acc' 4))"
  using assms by (simp add: render_sample_def process_voices_inactive)

lemma phase_leaves_table_note_127_at_8000:
  "map_sum id (\<lambda>st. phase (voices st ! 0) < real WAVETABLE_SIZE)
     (run [Deliver (NOTE_ON 127 127 0), Process 1 2] (constructor 8000)) = Inr False"
proof -
  define v0 where "v0 = attack_voice 8000 127 127 0 idle_voice"
  define rest where "rest = replicate 5 idle_voice"
  define st0 where "st0 = (constructor 8000)\<lparr>voices := v0 # rest\<rparr>"
  have ps: "48 < phaseStep v0"
    using two_powr_bound by (simp add: v0_def attack_voice_def Let_def WAVETABLE_SIZE_def)
  have v0: "active v0" "envState v0 = ATTACK" "channel v0 = 0" "envLevel v0 = 0"
    "velocity v0 = 1" "phase v0 = 0"
    by (simp_all add: v0_def attack_voice_def Let_def)
  have rest: "\<forall>u \<in> set rest. \<not> active u" by (simp add: rest_def idle_voice_def)
  have st0: "channels st0 = replicate 16 default_channel" "sampleRateVal st0 = 8000"
    "voices st0 = v0 # rest"
    by (simp_all add: st0_def constructor_def)
  have ch: "array_get (replicate 16 default_channel) 0 = Some default_channel"
    by (simp add: array_get_def)
  have a: "adsr_a (adsr default_channel) * 8000 = 800" by (simp add: default_channel_def)
  have on: "handleMessage (NOTE_ON 127 127 0) (constructor 8000) = Inr st0"
    by (simp add: st0_def v0_def rest_def constructor_def triggerAttack_def select_voice_def
        idle_voice_def eval_nat_numeral)
  define v1 where "v1 = v0\<lparr>envLevel := envLevel v0 + 1 / (adsr_a (adsr default_channel) * 8000),
                  phase := phase v0 + phaseStep v0 - 32\<rparr>"
  from process_voice_attack_wrap [of v0 "replicate 16 default_channel" default_channel 8000 "Some 0"]
    v0 ps ch a
  obtain acc1 where "process_voice (replicate 16 default_channel) 8000 v0 (Some 0) = Inr (v1, acc1)"
    by (auto simp: v1_def)
  with st0 rest have r1: "render_sample st0 = Inr (st0\<lparr>voices := v1 # rest\<rparr>, typed_array_store (num_div acc1 4))"
    by (simp add: render_sample_first_voice)
  define st1 where "st1 = st0\<lparr>voices := v1 # rest\<rparr>"
  have st1: "channels st1 = replicate 16 default_channel" "sampleRateVal st1 = 8000"
    "voices st1 = v1 # rest"
    by (simp_all add: st1_def st0)
  have v1: "active v1" "envState v1 = ATTACK" "channel v1 = 0" "envLevel v1 = 1 / 800"
    "velocity v1 = 1" "phase v1 = phaseStep v0 - 32" "phaseStep v1 = phaseStep v0"
    using v0 a by (simp_all add: v1_def)
  define v2 where "v2 = v1\<lparr>envLevel := envLevel v1 + 1 / (adsr_a (adsr default_channel) * 8000),
                  phase := phase v1 + phaseStep v1 - 32\<rparr>"
  from process_voice_attack_wrap [of v1 "replicate 16 default_channel" default_channel 8000 "Some 0"]
    v1 ps ch a
  obtain acc2 where "process_voice (replicate 16 default_channel) 8000 v1 (Some 0) = Inr (v2, acc2)"
    by (auto simp: v2_def)
  with st1 rest have r2: "render_sample st1 = Inr (st1\<lparr>voices := v2 # rest\<rparr>, typed_array_store (num_div acc2 4))"
    by (simp add: render_sample_first_voice)
  have p2: "\<not> phase v2 < 32" using v1 ps by (simp add: v2_def)
  from r1 r2 have "render_block 2 st0 = Inr (st1\<lparr>voices := v2 # rest\<rparr>, [typed_array_store (num_div acc1 4), typed_array_store (num_div acc2 4)])"
    by (simp add: eval_nat_numeral st1_def)
  then have "run [Process 1 2] st0 = Inr (st1\<lparr>voices := v2 # rest\<rparr>)"
    by (simp add: process_def)
  with on have "run [Deliver (NOTE_ON 127 127 0), Process 1 2] (constructor 8000)
      = Inr (st1\<lparr>voices := v2 # rest\<rparr>)"
    by simp
  with p2 show "map_sum id (\<lambda>st. phase (voices st ! 0) < real WAVETABLE_SIZE)
     (run [Deliver (NOTE_ON 127 127 0), Process 1 2] (constructor 8000)) = Inr False"
    by (simp add: WAVETABLE_SIZE_def)
qed

subsection \<open>STOP_ALL\<close>

text \<open>
  Claim C6. \<open>STOP_ALL\<close> puts every voice of the pool in \<open>IDLE\<close> with \<open>envLevel = 0\<close> and
  \<open>active = false\<close> at once, whatever its envelope state was; every voice's gain
  \<open>envLevel * velocity\<close> is then 0, and the next rendered sample leaves the voices as they
  are and is 0.
\<close>

theorem C6_stop_all_silences:
  "\<exists>st'. handleMessage STOP_ALL st = Inr st' \<and>
     length (voices st') = length (voices st) \<and>
     (\<forall>v \<in> set (voices st').
        envState v = IDLE \<and> envLevel v = 0 \<and> \<not> active v \<and> envLevel v * velocity v = 0) \<and>
     render_sample st' = Inr (st', Some 0)"
proof -
  let ?st = "st\<lparr>voices := map stop_voice (voices st)\<rparr>"
  have quiet: "\<forall>v \<in> set (voices ?st).
      envState v = IDLE \<and> envLevel v = 0 \<and> \<not> active v \<and> envLevel v * velocity v = 0"
    by (auto simp: stop_voice_def)
  then have "\<forall>v \<in> set (voices ?st). \<not> active v" by blast
  then have "render_sample ?st = Inr (?st, Some 0)" by (rule render_sample_inactive)
  with quiet show ?thesis by simp
qed

text \<open>C6 on the pool of \<open>sounding_state\<close>, with voices in four different envelope states.\<close>

theorem C6_stop_all_silences_witness:
  "\<exists>st'. handleMessage STOP_ALL sounding_state = Inr st' \<and>
     length (voices st') = 6 \<and>
     list_all (\<lambda>v. envState v = IDLE \<and> envLevel v = 0 \<and> \<not> active v \<and>
                  envLevel v * velocity v = 0) (voices st') \<and>
     render_sample st' = Inr (st', Some 0)"
  using C6_stop_all_silences [of sounding_state] by (simp add: sounding_state_def list_all_iff)

text \<open>
  Claim C9. \<open>STOP_ALL\<close> leaves the sixteen channel states and the sample rate as they
  are, keeps the number of voices, and in every voice leaves \<open>note\<close>, \<open>channel\<close>,
  \<open>velocity\<close>, \<open>phase\<close>, \<open>phaseStep\<close>, \<open>envTime\<close> and \<open>releaseStartLevel\<close> unchanged.
\<close>

theorem C9_stop_all_frame:
  "\<exists>st'. handleMessage STOP_ALL st = Inr st' \<and>
     channels st' = channels st \<and> sampleRateVal st' = sampleRateVal st \<and>
     length (voices st') = length (voices st) \<and>
     (\<forall>i < length (voices st).
        note (voices st' ! i) = note (voices st ! i) \<and>
        channel (voices st' ! i) = channel (voices st ! i) \<and>
        velocity (voices st' ! i) = velocity (voices st ! i) \<and>
        phase (voices st' ! i) = phase (voices st ! i) \<and>
        phaseStep (voices st' ! i) = phaseStep (voices st ! i) \<and>
        envTime (voices st' ! i) = envTime (voices st ! i) \<and>
        releaseStartLevel (voices st' ! i) = releaseStartLevel (voices st ! i))"
  by (simp add: stop_voice_def)

text \<open>C9 on the decaying voice 2 of \<open>sounding_state\<close>.\<close>

theorem C9_stop_all_frame_witness:
  "\<exists>st'. handleMessage STOP_ALL sounding_state = Inr st' \<and>
     channels st' = replicate 16 default_channel \<and>
     (2::nat) < length (voices sounding_state) \<and>
     note (voices st' ! 2) = 62 \<and> phase (voices st' ! 2) = 9 \<and>
     phaseStep (voices st' ! 2) = 1/3 \<and> releaseStartLevel (voices st' ! 2) = 1/8 \<and>
     velocity (voices st' ! 2) = 1"
proof -
  have len: "(2::nat) < length (voices sounding_state)" by (simp add: sounding_state_def)
  from C9_stop_all_frame [of sounding_state] obtain st' where
    st': "handleMessage STOP_ALL sounding_state = Inr st'"
      "channels st' = channels sounding_state"
      "\<forall>i < length (voices sounding_state).
        note (voices st' ! i) = note (voices sounding_state ! i) \<and>
        channel (voices st' ! i) = channel (voices sounding_state ! i) \<and>
        velocity (voices st' ! i) = velocity (voices sounding_state ! i) \<and>
        phase (voices st' ! i) = phase (voices sounding_state ! i) \<and>
        phaseStep (voices st' ! i) = phaseStep (voices sounding_state ! i) \<and>
        envTime (voices st' ! i) = envTime (voices sounding_state ! i) \<and>
        releaseStartLevel (voices st' ! i) = releaseStartLevel (voices sounding_state ! i)"
    by blast
  from st'(3) len have
    "note (voices st' ! 2) = note (voices sounding_state ! 2) \<and>
     velocity (voices st' ! 2) = velocity (voices sounding_state ! 2) \<and>
     phase (voices st' ! 2) = phase (voices sounding_state ! 2) \<and>
     phaseStep (voices st' ! 2) = phaseStep (voices sounding_state ! 2) \<and>
     releaseStartLevel (voices st' ! 2) = releaseStartLevel (voices sounding_state ! 2)"
    by blast
  then have "note (voices st' ! 2) = 62 \<and> phase (voices st' ! 2) = 9 \<and>
     phaseStep (voices st' ! 2) = 1/3 \<and> releaseStartLevel (voices st' ! 2) = 1/8 \<and>
     velocity (voices st' ! 2) = 1"
    by (simp add: sounding_state_def)
  moreover from st'(2) have "channels st' = replicate 16 default_channel"
    by (simp add: sounding_state_def constructor_def)
  ultimately show ?thesis using st'(1) len by blast
qed

subsection \<open>triggerRelease\<close>

text \<open>
  Claim C7. \<open>NOTE_OFF\<close> calls \<open>triggerRelease\<close>, which keeps the channel bank and the number
  of voices. Every voice that is active, carries the note and the channel of the message
  and is neither \<open>IDLE\<close> nor \<open>RELEASE\<close> goes to \<open>RELEASE\<close> with \<open>envTime = 0\<close> and
  \<open>releaseStartLevel\<close> set to its current \<open>envLevel\<close>, its other fields unchanged: all such
  voices at once. Every other voice is left as it is.
\<close>

theorem C7_triggerRelease_all_matching:
  "handleMessage (NOTE_OFF n c) st = Inr (triggerRelease n c st) \<and>
   channels (triggerRelease n c st) = channels st \<and>
   length (voices (triggerRelease n c st)) = length (voices st) \<and>
   (\<forall>i < length (voices st).
      if active (voices st ! i) \<and> note (voices st ! i) = n \<and> channel (voices st ! i) = c \<and>
         envState (voices st ! i) \<notin> {IDLE, RELEASE}
      then voices (triggerRelease n c st) ! i =
             (voices st ! i)\<lparr>envState := RELEASE, envTime := 0,
                               releaseStartLevel := envLevel (voices st ! i)\<rparr>
      else voices (triggerRelease n c st) ! i = voices st ! i)"
  by (simp add: triggerRelease_def release_voice_def)

text \<open>
  C7 on \<open>sounding_state\<close>: voices 0 and 1 both hold note 60 on channel 0 and release
  together; voice 2 (another note) and voice 3 (already releasing) are untouched.
\<close>

theorem C7_triggerRelease_all_matching_witness:
  "(3::nat) < length (voices sounding_state) \<and>
   envState (voices (triggerRelease 60 0 sounding_state) ! 0) = RELEASE \<and>
   releaseStartLevel (voices (triggerRelease 60 0 sounding_state) ! 0) = 1/2 \<and>
   envState (voices (triggerRelease 60 0 sounding_state) ! 1) = RELEASE \<and>
   releaseStartLevel (voices (triggerRelease 60 0 sounding_state) ! 1) = 1/4 \<and>
   voices (triggerRelease 60 0 sounding_state) ! 2 = voices sounding_state ! 2 \<and>
   voices (triggerRelease 60 0 sounding_state) ! 3 = voices sounding_state ! 3"
proof -
  have len: "(0::nat) < length (voices sounding_state)" "(1::nat) < length (voices sounding_state)"
    "(2::nat) < length (voices sounding_state)" "(3::nat) < length (voices sounding_state)"
    by (simp_all add: sounding_state_def)
  from C7_triggerRelease_all_matching [of 60 0 sounding_state]
  have all: "\<forall>i < length (voices sounding_state).
      if active (voices sounding_state ! i) \<and> note (voices sounding_state ! i) = 60 \<and>
         channel (voices sounding_state ! i) = 0 \<and>
         envState (voices sounding_state ! i) \<notin> {IDLE, RELEASE}
      then voices (triggerRelease 60 0 sounding_state) ! i =
             (voices sounding_state ! i)\<lparr>envState := RELEASE, envTime := 0,
                               releaseStartLevel := envLevel (voices sounding_state ! i)\<rparr>
      else voices (triggerRelease 60 0 sounding_state) ! i = voices sounding_state ! i"
    by blast
  have s0: "active (voices sounding_state ! 0)" "note (voices sounding_state ! 0) = 60"
    "channel (voices sounding_state ! 0) = 0" "envState (voices sounding_state ! 0) = SUSTAIN"
    "envLevel (voices sounding_state ! 0) = 1/2"
    by (simp_all add: sounding_state_def idle_voice_def)
  have s1: "active (voices sounding_state ! 1)" "note (voices sounding_state ! 1) = 60"
    "channel (voices sounding_state ! 1) = 0" "envState (voices sounding_state ! 1) = ATTACK"
    "envLevel (voices sounding_state ! 1) = 1/4"
    by (simp_all add: sounding_state_def idle_voice_def)
  have s2: "note (voices sounding_state ! 2) = 62"
    by (simp add: sounding_state_def idle_voice_def)
  have s3: "envState (voices sounding_state ! 3) = RELEASE"
    by (simp add: sounding_state_def idle_voice_def)
  from all [rule_format, OF len(1)] s0
  have v0: "envState (voices (triggerRelease 60 0 sounding_state) ! 0) = RELEASE \<and>
   releaseStartLevel (voices (triggerRelease 60 0 sounding_state) ! 0) = 1/2"
    by simp
  from all [rule_format, OF len(2)] s1
  have v1: "envState (voices (triggerRelease 60 0 sounding_state) ! 1) = RELEASE \<and>
   releaseStartLevel (voices (triggerRelease 60 0 sounding_state) ! 1) = 1/4"
    by simp
  from all [rule_format, OF len(3)] s2
  have v2: "voices (triggerRelease 60 0 sounding_state) ! 2 = voices sounding_state ! 2"
    by simp
  from all [rule_format, OF len(4)] s3
  have v3: "voices (triggerRelease 60 0 sounding_state) ! 3 = voices sounding_state ! 3"
    by simp
  from v0 v1 v2 v3 len(4) show ?thesis by blast
qed

subsection \<open>Setting a wavetable\<close>

lemma to_float32_eval:
  assumes "x \<noteq> 0" and "\<lfloor>log 2 \<bar>x\<bar>\<rfloor> = k" and "-126 \<le> k"
    and "2 powr of_int (k - 23) = u" and "round_half_even (x / u) = n"
  shows "to_float32 x = of_int n * u"
  using assms by (simp add: to_float32_def Let_def max_def)

lemma floor_log2I:
  assumes "2 powr of_int k \<le> x" and "x < 2 powr of_int (k + 1)"
  shows "\<lfloor>log 2 x\<rfloor> = k"
proof -
  have p: "0 < (2::real) powr of_int k" by simp
  from p assms(1) have pos: "0 < x" by (rule less_le_trans)
  from assms(1) pos have a: "of_int k \<le> log 2 x" by (simp add: le_log_iff)
  from assms(2) pos have b: "log 2 x < of_int (k + 1)" by (simp add: log_less_iff)
  from a b show ?thesis by (simp add: floor_eq_iff)
qed

lemma to_float32_half: "to_float32 (1/2) = 1/2"
proof -
  have fl: "\<lfloor>log 2 \<bar>1/2 :: real\<bar>\<rfloor> = -1"
    by (rule floor_log2I) (simp_all add: powr_minus)
  have u: "(2::real) powr of_int (-1 - 23) = 1 / 2 ^ 24"
    by (simp add: powr_minus divide_simps)
  have r: "round_half_even (1 / 2 / (1 / 2 ^ 24)) = 2 ^ 23"
    by (simp add: round_half_even_def Let_def)
  have "to_float32 (1/2) = of_int (2 ^ 23) * (1 / 2 ^ 24)"
    by (rule to_float32_eval [OF _ fl _ u r]) simp_all
  then show ?thesis by simp
qed

lemma to_float32_tenth: "to_float32 (1/10) = 13421773 / 134217728"
proof -
  have fl: "\<lfloor>log 2 \<bar>1/10 :: real\<bar>\<rfloor> = -4"
    by (rule floor_log2I) (simp_all add: powr_minus)
  have u: "(2::real) powr of_int (-4 - 23) = 1 / 2 ^ 27"
    by (simp add: powr_minus divide_simps)
  have f: "\<lfloor>(67108864::real) / 5\<rfloor> = 13421772"
    by (simp add: floor_eq_iff)
  have r: "round_half_even (1 / 10 / (1 / 2 ^ 27)) = 13421773"
    using f by (simp add: round_half_even_def Let_def)
  have "to_float32 (1/10) = of_int 13421773 * (1 / 2 ^ 27)"
    by (rule to_float32_eval [OF _ fl _ u r]) simp_all
  then show ?thesis by simp
qed

text \<open>
  Claim C8. For a channel index inside the bank, whose table has the 32 entries the
  constructor gave it, a \<open>SET_CHANNEL_WAVETABLE\<close> message with 32 samples overwrites that
  channel's table with the samples as a \<open>Float32Array\<close> holds them, and changes nothing
  else; when the samples are single-precision values, as the elements of the
  \<open>Float32Array\<close> that \<open>setChannelWavetable\<close> sends are, reading the table back gives
  exactly the samples sent. A message with any other number of samples leaves the whole
  state as it is.
\<close>

theorem C8_wavetable_round_trip:
  assumes "array_get (channels st) c = Some ch" and "length (wavetable ch) = WAVETABLE_SIZE"
  shows "(length samples = 32 \<longrightarrow>
            (\<exists>st'. handleMessage (SET_CHANNEL_WAVETABLE c samples) st = Inr st' \<and>
                   map_option wavetable (array_get (channels st') c) = Some (map to_float32 samples) \<and>
                   st' = st\<lparr>channels := (channels st)[nat c := ch\<lparr>wavetable := map to_float32 samples\<rparr>]\<rparr> \<and>
                   ((\<forall>x \<in> set samples. is_float32 x) \<longrightarrow>
                      map_option wavetable (array_get (channels st') c) = Some samples))) \<and>
         (length samples \<noteq> 32 \<longrightarrow> handleMessage (SET_CHANNEL_WAVETABLE c samples) st = Inr st)"
proof (intro conjI impI)
  assume len: "length samples = 32"
  let ?st' = "st\<lparr>channels := (channels st)[nat c := ch\<lparr>wavetable := map to_float32 samples\<rparr>]\<rparr>"
  from assms(1) have c: "0 \<le> c" "nat c < length (channels st)"
    by (auto simp: array_get_def split: if_splits)
  from assms len have h: "handleMessage (SET_CHANNEL_WAVETABLE c samples) st = Inr ?st'"
    by (simp add: typed_array_set_def WAVETABLE_SIZE_def)
  from c have rd: "map_option wavetable (array_get (channels ?st') c) = Some (map to_float32 samples)"
    by (simp add: array_get_def)
  have ex: "map_option wavetable (array_get (channels ?st') c) = Some samples"
    if "\<forall>x \<in> set samples. is_float32 x"
  proof -
    from that have "map to_float32 samples = samples"
      by (simp add: is_float32_def map_idI)
    with rd show ?thesis by simp
  qed
  from h rd ex show "\<exists>st'. handleMessage (SET_CHANNEL_WAVETABLE c samples) st = Inr st' \<and>
                   map_option wavetable (array_get (channels st') c) = Some (map to_float32 samples) \<and>
                   st' = st\<lparr>channels := (channels st)[nat c := ch\<lparr>wavetable := map to_float32 samples\<rparr>]\<rparr> \<and>
                   ((\<forall>x \<in> set samples. is_float32 x) \<longrightarrow>
                      map_option wavetable (array_get (channels st') c) = Some samples)"
    by blast
next
  assume "length samples \<noteq> 32"
  with assms show "handleMessage (SET_CHANNEL_WAVETABLE c samples) st = Inr st"
    by (simp add: WAVETABLE_SIZE_def)
qed

text \<open>
  C8 at channel 5 of the fresh engine: 32 samples of one half (a single-precision value)
  read back as sent, 32 samples of one tenth (not one) read back as the nearest
  single-precision value, and 31 samples change nothing.
\<close>

theorem C8_wavetable_round_trip_witness:
  "array_get (channels (constructor 48000)) 5 = Some default_channel \<and>
   length (wavetable default_channel) = WAVETABLE_SIZE \<and>
   list_all is_float32 (replicate 32 (1/2)) \<and>
   map_sum id (\<lambda>st. map_option wavetable (array_get (channels st) 5))
     (handleMessage (SET_CHANNEL_WAVETABLE 5 (replicate 32 (1/2))) (constructor 48000))
     = Inr (Some (replicate 32 (1/2))) \<and>
   map_sum id (\<lambda>st. map_option wavetable (array_get (channels st) 5))
     (handleMessage (SET_CHANNEL_WAVETABLE 5 (replicate 32 (1/10))) (constructor 48000))
     = Inr (Some (replicate 32 (13421773 / 134217728))) \<and>
   handleMessage (SET_CHANNEL_WAVETABLE 5 (replicate 31 (1/2))) (constructor 48000)
     = Inr (constructor 48000)"
proof -
  have h1: "array_get (channels (constructor 48000)) 5 = Some default_channel"
    by (simp add: constructor_def array_get_def)
  have h2: "length (wavetable default_channel) = WAVETABLE_SIZE"
    by (simp add: default_channel_def default_wavetable_def)
  have f: "is_float32 (1/2)" by (simp add: is_float32_def to_float32_half)
  then have fs: "\<forall>x \<in> set (replicate 32 (1/2 :: real)). is_float32 x" by simp
  then have fl: "list_all is_float32 (replicate 32 (1/2))" by (simp add: list_all_iff)
  from C8_wavetable_round_trip [OF h1 h2, of "replicate 32 (1/2)"] fs
  have a: "map_sum id (\<lambda>st. map_option wavetable (array_get (channels st) 5))
     (handleMessage (SET_CHANNEL_WAVETABLE 5 (replicate 32 (1/2))) (constructor 48000))
     = Inr (Some (replicate 32 (1/2)))"
    by auto
  from C8_wavetable_round_trip [OF h1 h2, of "replicate 32 (1/10)"]
  have b: "map_sum id (\<lambda>st. map_option wavetable (array_get (channels st) 5))
     (handleMessage (SET_CHANNEL_WAVETABLE 5 (replicate 32 (1/10))) (constructor 48000))
     = Inr (Some (replicate 32 (13421773 / 134217728)))"
    by (auto simp: to_float32_tenth)
  from C8_wavetable_round_trip [OF h1 h2, of "replicate 31 (1/2)"]
  have c: "handleMessage (SET_CHANNEL_WAVETABLE 5 (replicate 31 (1/2))) (constructor 48000)
     = Inr (constructor 48000)"
    by simp
  from h1 h2 fl a b c show ?thesis by blast
qed

subsection \<open>The gain gate\<close>

text \<open>
  Claim C10. When the loop body has run for a voice and the voice's gain
  \<open>envLevel * velocity\<close> is at most \<open>0.0001\<close>, the running sum of the output sample is what
  it was before (the voice adds exactly 0) and the voice's phase has not moved.
\<close>

theorem C10_gated_voice_skipped:
  assumes "process_voice chans sr v acc = Inr (v', acc')"
    and "envLevel v' * velocity v' \<le> 0.0001"
  shows "acc' = acc \<and> phase v' = phase v"
proof (cases "active v")
  case False
  with assms show ?thesis by (simp add: process_voice_def)
next
  case True
  with assms(1) obtain chState where
    "array_get chans (channel v) = Some chState"
    by (cases "array_get chans (channel v)") (simp_all add: process_voice_def)
  with True assms(1) have
    v': "oscillator_step (wavetable chState) (envelope_step sr (adsr chState) v) acc = (v', acc')"
    by (simp add: process_voice_def)
  let ?w = "envelope_step sr (adsr chState) v"
  from v' oscillator_step_gain [of "wavetable chState" ?w acc]
  have "envLevel ?w * velocity ?w = envLevel v' * velocity v'" by simp
  with assms(2) have "oscillator_step (wavetable chState) ?w acc = (?w, acc)"
    by (simp add: oscillator_step_gated)
  with v' show ?thesis by (auto simp: envelope_step_phase)
qed

text \<open>C10 on a sustained voice of velocity 0: level one half, gain 0.\<close>

theorem C10_gated_voice_skipped_witness:
  "process_voice [flat_channel] 48000
      (idle_voice\<lparr>active := True, envState := SUSTAIN, phase := 3, phaseStep := 2\<rparr>) (Some 1)
     = Inr (idle_voice\<lparr>active := True, envState := SUSTAIN, phase := 3, phaseStep := 2,
                       envLevel := 1/2\<rparr>, Some 1) \<and>
   envLevel (idle_voice\<lparr>active := True, envState := SUSTAIN, phase := 3, phaseStep := 2,
                       envLevel := 1/2\<rparr>) *
   velocity (idle_voice\<lparr>active := True, envState := SUSTAIN, phase := 3, phaseStep := 2,
                       envLevel := 1/2\<rparr>) \<le> 0.0001 \<and>
   phase (idle_voice\<lparr>active := True, envState := SUSTAIN, phase := 3, phaseStep := 2,
                       envLevel := 1/2\<rparr>) = 3"
proof -
  let ?v = "idle_voice\<lparr>active := True, envState := SUSTAIN, phase := 3, phaseStep := 2\<rparr>"
  let ?v' = "idle_voice\<lparr>active := True, envState := SUSTAIN, phase := 3, phaseStep := 2,
                       envLevel := 1/2\<rparr>"
  have r: "process_voice [flat_channel] 48000 ?v (Some 1) = Inr (?v', Some 1)"
    by (simp add: process_voice_def array_get_def idle_voice_def flat_channel_def
        envelope_step_def oscillator_step_def)
  have g: "envLevel ?v' * velocity ?v' \<le> 0.0001" by (simp add: idle_voice_def)
  from C10_gated_voice_skipped [OF r g] have "phase ?v' = 3" by simp
  with r g show ?thesis by blast
qed

end
